theory Spec2Isabelle
  imports Main
begin

section \<open>Data model\<close>

text \<open>
  The router (class \<open>LLMRouter\<close>) and the provider adapters (classes \<open>OpenAIProvider\<close>,
  \<open>AnthropicProvider\<close>) of the repository, as pure functions over an explicit router state.
  JavaScript numbers that hold counters, priorities, limits and millisecond instants are
  modelled as \<open>int\<close>.
\<close>

record ProviderConfig =
  name :: string
  apiKey :: string
  enabled :: bool
  priority :: int
  maxConcurrent :: int
  rateLimitPerMinute :: int

text \<open>A provider object; the argument is the API key the constructor stores.\<close>

datatype LLMProvider =
  OpenAIProvider string
| AnthropicProvider string
| GoogleGeminiProvider string

record Usage =
  promptTokens :: int
  completionTokens :: int

text \<open>
  Of a response only the fields the router reads are kept. \<open>usage = None\<close> is a response
  object without a \<open>usage\<close> field, on which \<open>trackCost\<close> raises a TypeError.
\<close>

record LLMResponse =
  model :: string
  usage :: "Usage option"

text \<open>
  \<open>StreamChunk\<close>: the \<open>type\<close> tag with the field each tag carries. The content of a
  \<open>content\<close> chunk is optional, as in the interface.
\<close>

datatype StreamChunk =
  Start
| Content "string option"
| End
| Error string

text \<open>
  The state of an \<open>LLMRouter\<close> object. \<open>providers\<close> is a JavaScript \<open>Map\<close>, whose
  iteration order is the order of first insertion: an association list with distinct keys.
  The two other maps are only read by key. \<open>clockReads\<close> counts the calls of
  \<open>Date.now()\<close> made so far: the k-th call returns \<open>clock k\<close>, for a clock given to every
  operation that reads the time.
\<close>

record LLMRouter =
  providers :: "(string \<times> LLMProvider) list"
  providerConfigs :: "ProviderConfig list"
  activeRequests :: "string \<rightharpoonup> int"
  rateLimitTracker :: "string \<rightharpoonup> int list"
  clockReads :: nat

type_synonym clock = "nat \<Rightarrow> int"

section \<open>Construction\<close>

text \<open>\<open>Map.prototype.set\<close>: an existing key keeps its position, a new key goes last.\<close>

fun Map_set :: "'k \<Rightarrow> 'v \<Rightarrow> ('k \<times> 'v) list \<Rightarrow> ('k \<times> 'v) list" where
  "Map_set k v [] = [(k, v)]"
| "Map_set k v ((k', v') # m) =
     (if k' = k then (k, v) # m else (k', v') # Map_set k v m)"

text \<open>The \<open>switch (config.name)\<close> of \<open>initializeProviders\<close>, with its \<open>default\<close> branch.\<close>

definition newProvider :: "ProviderConfig \<Rightarrow> LLMProvider option" where
  "newProvider config =
     (if name config = ''openai'' then Some (OpenAIProvider (apiKey config))
      else if name config = ''anthropic'' then Some (AnthropicProvider (apiKey config))
      else if name config = ''google'' then Some (GoogleGeminiProvider (apiKey config))
      else None)"

fun initializeProviders :: "ProviderConfig list \<Rightarrow> LLMRouter \<Rightarrow> LLMRouter" where
  "initializeProviders [] r = r"
| "initializeProviders (config # rest) r =
     (if \<not> enabled config then initializeProviders rest r
      else case newProvider config of
             None \<Rightarrow> initializeProviders rest r
           | Some provider \<Rightarrow>
               initializeProviders rest
                 (r\<lparr>providers := Map_set (name config) provider (providers r),
                    activeRequests := (activeRequests r)(name config \<mapsto> 0),
                    rateLimitTracker := (rateLimitTracker r)(name config \<mapsto> [])\<rparr>))"

text \<open>
  \<open>configs.sort((a, b) => a.priority - b.priority)\<close> is a stable sort by priority, as
  \<open>sort_key\<close> is.
\<close>

definition constructor :: "ProviderConfig list \<Rightarrow> LLMRouter" where
  "constructor configs =
     (let sorted = sort_key priority configs
      in initializeProviders sorted
           \<lparr>providers = [], providerConfigs = sorted, activeRequests = Map.empty,
            rateLimitTracker = Map.empty, clockReads = 0\<rparr>)"

section \<open>Admission tracking\<close>

text \<open>\<open>this.providerConfigs.find((c) => c.name === providerName)\<close>\<close>

definition findConfig :: "LLMRouter \<Rightarrow> string \<Rightarrow> ProviderConfig option" where
  "findConfig r providerName = find (\<lambda>c. name c = providerName) (providerConfigs r)"

text \<open>\<open>this.activeRequests.get(name) || 0\<close>\<close>

definition activeCount :: "LLMRouter \<Rightarrow> string \<Rightarrow> int" where
  "activeCount r providerName =
     (case activeRequests r providerName of None \<Rightarrow> 0 | Some n \<Rightarrow> n)"

text \<open>\<open>this.rateLimitTracker.get(providerName) || []\<close>\<close>

definition trackerOf :: "LLMRouter \<Rightarrow> string \<Rightarrow> int list" where
  "trackerOf r providerName =
     (case rateLimitTracker r providerName of None \<Rightarrow> [] | Some ts \<Rightarrow> ts)"

definition Date_now :: "clock \<Rightarrow> LLMRouter \<Rightarrow> int \<times> LLMRouter" where
  "Date_now clk r = (clk (clockReads r), r\<lparr>clockReads := Suc (clockReads r)\<rparr>)"

text \<open>
  \<open>trackRequest\<close> pushes one reading of the clock and stores the window filtered
  against a second reading.
\<close>

definition trackRequest :: "clock \<Rightarrow> string \<Rightarrow> LLMRouter \<Rightarrow> LLMRouter" where
  "trackRequest clk providerName r =
     (let tracker = trackerOf r providerName;
          (pushed, r1) = Date_now clk r;
          tracker1 = tracker @ [pushed];
          (now, r2) = Date_now clk r1;
          oneMinuteAgo = now - 60000;
          filtered = filter (\<lambda>t. t > oneMinuteAgo) tracker1
      in r2\<lparr>rateLimitTracker := (rateLimitTracker r2)(providerName \<mapsto> filtered)\<rparr>)"

definition checkRateLimit :: "clock \<Rightarrow> string \<Rightarrow> LLMRouter \<Rightarrow> bool \<times> LLMRouter" where
  "checkRateLimit clk providerName r =
     (case findConfig r providerName of
        None \<Rightarrow> (False, r)
      | Some config \<Rightarrow>
          (let (now, r1) = Date_now clk r;
               oneMinuteAgo = now - 60000;
               tracker = trackerOf r1 providerName;
               recentRequests = filter (\<lambda>t. t > oneMinuteAgo) tracker
           in if int (length recentRequests) \<ge> rateLimitPerMinute config
              then (False, r1)
              else (True, trackRequest clk providerName r1)))"

definition incrementActiveRequests :: "string \<Rightarrow> LLMRouter \<Rightarrow> LLMRouter" where
  "incrementActiveRequests providerName r =
     (let current = activeCount r providerName
      in r\<lparr>activeRequests := (activeRequests r)(providerName \<mapsto> current + 1)\<rparr>)"

definition decrementActiveRequests :: "string \<Rightarrow> LLMRouter \<Rightarrow> LLMRouter" where
  "decrementActiveRequests providerName r =
     (let current = activeCount r providerName
      in r\<lparr>activeRequests := (activeRequests r)(providerName \<mapsto> max 0 (current - 1))\<rparr>)"

section \<open>Selection\<close>

definition isProviderAvailable :: "LLMRouter \<Rightarrow> string \<Rightarrow> bool" where
  "isProviderAvailable r providerName =
     (case map_of (providers r) providerName of None \<Rightarrow> False | Some provider \<Rightarrow> True)"

text \<open>
  The sort key of \<open>selectProvider\<close>, \<open>configA?.priority || 999\<close>: 999 when no
  configuration has the name, and also when the priority is 0, which \<open>||\<close> takes for absent.
\<close>

definition selectKey :: "LLMRouter \<Rightarrow> string \<Rightarrow> int" where
  "selectKey r providerName =
     (case findConfig r providerName of
        None \<Rightarrow> 999
      | Some config \<Rightarrow> if priority config = 0 then 999 else priority config)"

definition sortedProviders :: "LLMRouter \<Rightarrow> (string \<times> LLMProvider) list" where
  "sortedProviders r = sort_key (\<lambda>entry. selectKey r (fst entry)) (providers r)"

text \<open>The \<open>for\<close> loop of \<open>selectProvider\<close> over the sorted entries.\<close>

fun selectLoop ::
  "clock \<Rightarrow> (string \<times> LLMProvider) list \<Rightarrow> LLMRouter \<Rightarrow> LLMProvider option \<times> LLMRouter" where
  "selectLoop clk [] r = (None, r)"
| "selectLoop clk ((providerName, provider) # rest) r =
     (if \<not> isProviderAvailable r providerName then selectLoop clk rest r
      else case checkRateLimit clk providerName r of
        (passed, r1) \<Rightarrow>
          if \<not> passed then selectLoop clk rest r1
          else if (case findConfig r1 providerName of
                     None \<Rightarrow> False
                   | Some config \<Rightarrow> activeCount r1 providerName \<ge> maxConcurrent config)
               then selectLoop clk rest r1
               else (Some provider, r1))"

definition selectProvider :: "clock \<Rightarrow> LLMRouter \<Rightarrow> LLMProvider option \<times> LLMRouter" where
  "selectProvider clk r = selectLoop clk (sortedProviders r) r"

text \<open>
  \<open>getProviderName\<close> finds the entry holding the provider object. Objects are compared
  by identity in the source and by value here; the two agree on the states the constructor
  builds, where the provider values of distinct entries differ.
\<close>

definition getProviderName :: "LLMRouter \<Rightarrow> LLMProvider \<Rightarrow> string" where
  "getProviderName r provider =
     (case find (\<lambda>entry. snd entry = provider) (providers r) of
        Some entry \<Rightarrow> fst entry
      | None \<Rightarrow> ''unknown'')"

section \<open>Routing a request\<close>

text \<open>
  What a call of the router did around the adapter, in order: the increment of the
  active-request counter (\<open>Enter\<close>), the call of the adapter's \<open>invoke\<close> or
  \<open>stream\<close>, and the decrement (\<open>Leave\<close>).
\<close>

datatype event =
  Enter string
| AdapterInvoke string
| AdapterStream string
| Leave string

text \<open>
  The three ways \<open>provider.invoke(request)\<close> can end: the promise resolves, the call
  raises before returning a promise, or the promise rejects.
\<close>

datatype AdapterOutcome =
  Resolves LLMResponse
| ThrowsSync string
| Rejects string

datatype RouterError =
  NoAvailableProviders
| AdapterFailure string
| TypeError

text \<open>
  \<open>trackCost\<close> only logs the cost. It returns early when the name has no provider, and
  raises when it reads the token counts of a missing \<open>usage\<close>.
\<close>

definition trackCost :: "LLMRouter \<Rightarrow> string \<Rightarrow> Usage option \<Rightarrow> RouterError option" where
  "trackCost r providerName u =
     (case map_of (providers r) providerName of
        None \<Rightarrow> None
      | Some provider \<Rightarrow> (case u of None \<Rightarrow> Some TypeError | Some tokens \<Rightarrow> None))"

text \<open>
  \<open>invoke\<close>: the body of the \<open>try\<close> ends in one of the results below, and the
  \<open>finally\<close> block runs after each of them.
\<close>

definition invoke ::
  "clock \<Rightarrow> (LLMProvider \<Rightarrow> 'req \<Rightarrow> AdapterOutcome) \<Rightarrow> 'req \<Rightarrow> LLMRouter
     \<Rightarrow> (RouterError + LLMResponse) \<times> event list \<times> LLMRouter" where
  "invoke clk adapter request r =
     (case selectProvider clk r of
        (None, r1) \<Rightarrow> (Inl NoAvailableProviders, [], r1)
      | (Some provider, r1) \<Rightarrow>
          (let providerName = getProviderName r1 provider;
               r2 = incrementActiveRequests providerName r1;
               result =
                 (case adapter provider request of
                    Resolves response \<Rightarrow>
                      (case trackCost r2 providerName (usage response) of
                         Some e \<Rightarrow> Inl e
                       | None \<Rightarrow> Inr response)
                  | ThrowsSync e \<Rightarrow> Inl (AdapterFailure e)
                  | Rejects e \<Rightarrow> Inl (AdapterFailure e));
               finallyName = getProviderName r2 provider;
               r3 = decrementActiveRequests finallyName r2
           in (result, [Enter providerName, AdapterInvoke providerName, Leave finallyName], r3)))"

text \<open>
  The adapter's \<open>stream\<close> is an asynchronous generator: it yields chunks and then either
  completes or raises. (A \<open>stream\<close> method that raises when called is \<open>Yields [] (Throws e)\<close>:
  the call is inside the router's \<open>try\<close>.)
\<close>

datatype StreamEnd = Completes | Throws string

datatype AdapterStreaming = Yields "StreamChunk list" StreamEnd

text \<open>
  The consumer of the router's generator either takes every chunk, or calls \<open>return()\<close>
  on it after having received \<open>k\<close> chunks (what leaving a \<open>for await\<close> loop does).
\<close>

datatype Consumer = ConsumeAll | CancelAfter nat

datatype StreamOutcome = Finished | Cancelled | Failed RouterError

definition endOutcome :: "StreamEnd \<Rightarrow> StreamOutcome" where
  "endOutcome e = (case e of Completes \<Rightarrow> Finished | Throws msg \<Rightarrow> Failed (AdapterFailure msg))"

text \<open>
  \<open>stream\<close>: nothing of the generator's body runs before the first \<open>next()\<close>, so a
  consumer that cancels at once leaves the router untouched. Otherwise the body selects,
  increments, and forwards the adapter's chunks inside \<open>try\<close>; the \<open>finally\<close> block runs
  when the adapter completes, when it raises, and when the consumer calls \<open>return()\<close>
  while the generator is suspended at a \<open>yield\<close>.
\<close>

definition stream ::
  "clock \<Rightarrow> (LLMProvider \<Rightarrow> 'req \<Rightarrow> AdapterStreaming) \<Rightarrow> 'req \<Rightarrow> Consumer \<Rightarrow> LLMRouter
     \<Rightarrow> (StreamChunk list \<times> StreamOutcome) \<times> event list \<times> LLMRouter" where
  "stream clk adapter request consumer r =
     (if consumer = CancelAfter 0 then (([], Cancelled), [], r)
      else case selectProvider clk r of
        (None, r1) \<Rightarrow> (([], Failed NoAvailableProviders), [], r1)
      | (Some provider, r1) \<Rightarrow>
          (let providerName = getProviderName r1 provider;
               r2 = incrementActiveRequests providerName r1;
               out =
                 (case adapter provider request of
                    Yields chunks e \<Rightarrow>
                      (case consumer of
                         ConsumeAll \<Rightarrow> (chunks, endOutcome e)
                       | CancelAfter k \<Rightarrow>
                           if k \<le> length chunks then (take k chunks, Cancelled)
                           else (chunks, endOutcome e)));
               r3 = decrementActiveRequests providerName r2
           in (out, [Enter providerName, AdapterStream providerName, Leave providerName], r3)))"

section \<open>Status reporting\<close>

record ProviderStatus =
  statusName :: string
  active :: int
  available :: bool

text \<open>
  \<open>getStatus\<close> maps over the entries of \<open>this.providers\<close>. The router state is returned
  with the snapshot, as the method leaves it.
\<close>

definition getStatus :: "LLMRouter \<Rightarrow> ProviderStatus list \<times> LLMRouter" where
  "getStatus r =
     (map (\<lambda>entry. \<lparr>statusName = fst entry, active = activeCount r (fst entry),
                     available = True\<rparr>) (providers r), r)"

section \<open>Sequences of router operations\<close>

text \<open>
  The operations that change or read the router state, so that a run of the router is a
  list of them. The private increment and decrement are included on their own.
\<close>

datatype 'req operation =
  CallInvoke "LLMProvider \<Rightarrow> 'req \<Rightarrow> AdapterOutcome" 'req
| CallStream "LLMProvider \<Rightarrow> 'req \<Rightarrow> AdapterStreaming" 'req Consumer
| CallGetStatus
| CallSelectProvider
| CallIncrement string
| CallDecrement string

fun perform :: "clock \<Rightarrow> 'req operation \<Rightarrow> LLMRouter \<Rightarrow> LLMRouter" where
  "perform clk (CallInvoke adapter request) r = snd (snd (invoke clk adapter request r))"
| "perform clk (CallStream adapter request consumer) r =
     snd (snd (stream clk adapter request consumer r))"
| "perform clk CallGetStatus r = snd (getStatus r)"
| "perform clk CallSelectProvider r = snd (selectProvider clk r)"
| "perform clk (CallIncrement providerName) r = incrementActiveRequests providerName r"
| "perform clk (CallDecrement providerName) r = decrementActiveRequests providerName r"

definition performAll :: "clock \<Rightarrow> 'req operation list \<Rightarrow> LLMRouter \<Rightarrow> LLMRouter" where
  "performAll clk ops r = foldl (\<lambda>s op. perform clk op s) r ops"

section \<open>Example configurations\<close>

definition openaiConfig :: ProviderConfig where
  "openaiConfig = \<lparr>name = ''openai'', apiKey = ''k1'', enabled = True, priority = 1,
                    maxConcurrent = 2, rateLimitPerMinute = 3\<rparr>"

section \<open>Well-formed router states\<close>

text \<open>
  The name under which \<open>initializeProviders\<close> stores a provider of each class.
\<close>

definition providerKey :: "LLMProvider \<Rightarrow> string" where
  "providerKey provider =
     (case provider of
        OpenAIProvider k \<Rightarrow> ''openai''
      | AnthropicProvider k \<Rightarrow> ''anthropic''
      | GoogleGeminiProvider k \<Rightarrow> ''google'')"

text \<open>
  Every state the constructor builds has distinct keys in \<open>providers\<close>, each holding the
  provider of its class (\<open>keyed\<close>); so the keys and the provider objects are distinct
  (\<open>wellFormed\<close>), and finding a provider by value finds the object.
\<close>

definition keyed :: "LLMRouter \<Rightarrow> bool" where
  "keyed r = (distinct (map fst (providers r)) \<and>
              (\<forall>entry \<in> set (providers r). providerKey (snd entry) = fst entry))"

definition wellFormed :: "LLMRouter \<Rightarrow> bool" where
  "wellFormed r = (distinct (map fst (providers r)) \<and> distinct (map snd (providers r)))"

definition unlimitedConfig :: ProviderConfig where
  "unlimitedConfig = \<lparr>name = ''openai'', apiKey = ''k0'', enabled = True, priority = 1,
                       maxConcurrent = 5, rateLimitPerMinute = 0\<rparr>"

definition anthropicConfig :: ProviderConfig where
  "anthropicConfig = \<lparr>name = ''anthropic'', apiKey = ''k2'', enabled = True, priority = 2,
                       maxConcurrent = 2, rateLimitPerMinute = 3\<rparr>"

text \<open>An adapter whose OpenAI backend is unreachable and whose other backends answer.\<close>

definition openaiDown :: "LLMProvider \<Rightarrow> unit \<Rightarrow> AdapterOutcome" where
  "openaiDown provider request =
     (case provider of
        OpenAIProvider k \<Rightarrow> Rejects ''ECONNRESET''
      | AnthropicProvider k \<Rightarrow> Resolves \<lparr>model = ''claude'', usage = Some \<lparr>promptTokens = 1, completionTokens = 1\<rparr>\<rparr>
      | GoogleGeminiProvider k \<Rightarrow> Resolves \<lparr>model = ''gemini'', usage = Some \<lparr>promptTokens = 1, completionTokens = 1\<rparr>\<rparr>)"

definition disabledConfig :: ProviderConfig where
  "disabledConfig = \<lparr>name = ''google'', apiKey = ''k3'', enabled = False, priority = 1,
                      maxConcurrent = 2, rateLimitPerMinute = 3\<rparr>"

text \<open>A number of successive rate-limit checks of one backend, with their results.\<close>

fun repeatCheck :: "clock \<Rightarrow> string \<Rightarrow> nat \<Rightarrow> LLMRouter \<Rightarrow> bool list \<times> LLMRouter" where
  "repeatCheck clk providerName 0 r = ([], r)"
| "repeatCheck clk providerName (Suc j) r =
     (case checkRateLimit clk providerName r of
        (passed, r1) \<Rightarrow>
          (case repeatCheck clk providerName j r1 of (results, r2) \<Rightarrow> (passed # results, r2)))"

definition limitedConfig :: ProviderConfig where
  "limitedConfig = \<lparr>name = ''openai'', apiKey = ''k1'', enabled = True, priority = 1,
                     maxConcurrent = 5, rateLimitPerMinute = 2\<rparr>"

definition saturatedConfig :: ProviderConfig where
  "saturatedConfig = \<lparr>name = ''openai'', apiKey = ''k1'', enabled = True, priority = 1,
                       maxConcurrent = 0, rateLimitPerMinute = 3\<rparr>"

section \<open>Provider adapters: the streamed response\<close>

text \<open>
  What the adapter's HTTP exchange can do: \<open>fetch\<close> rejects, the response is not
  \<open>ok\<close> (with its status text), the response has no body, or the body's reader
  delivers decoded pieces of text until it reports \<open>done\<close> or a \<open>read()\<close> fails.
  The strings of the failures are what \<open>String(error)\<close> gives.
\<close>

datatype TransportEnd = Done | ReadFails string

datatype Transport =
  FetchRejects string
| NotOk string
| NoBody
| Body "string list" TransportEnd

text \<open>\<open>chunk.split("\n")\<close>: the pieces between line feeds, a single empty piece for \<open>""\<close>.\<close>

fun splitLines :: "string \<Rightarrow> string list" where
  "splitLines [] = [[]]"
| "splitLines (c # cs) =
     (if c = CHR 0x0A then [] # splitLines cs
      else (case splitLines cs of
              [] \<Rightarrow> [[c]]
            | l # ls \<Rightarrow> (c # l) # ls))"

definition startsWith :: "string \<Rightarrow> string \<Rightarrow> bool" where
  "startsWith line prefix = (take (length prefix) line = prefix)"

text \<open>
  The \<open>for\<close> loop of \<open>OpenAIProvider.stream\<close> over the lines of one piece. The flag says
  that the generator returned at \<open>[DONE]\<close>. \<open>parseDelta\<close> stands for \<open>JSON.parse\<close> and
  the read of \<open>choices[0]?.delta?.content\<close>: the content when it is there and truthy,
  \<open>None\<close> when it is not or when the \<open>try\<close> block raised.
\<close>

fun openaiLines :: "(string \<Rightarrow> string option) \<Rightarrow> string list \<Rightarrow> StreamChunk list \<times> bool" where
  "openaiLines parseDelta [] = ([], False)"
| "openaiLines parseDelta (line # lines) =
     (if startsWith line ''data: '' then
        (let data = drop 6 line
         in if data = ''[DONE]'' then ([End], True)
            else (case parseDelta data of
                    Some text \<Rightarrow>
                      (case openaiLines parseDelta lines of
                         (chunks, returned) \<Rightarrow> (Content (Some text) # chunks, returned))
                  | None \<Rightarrow> openaiLines parseDelta lines))
      else openaiLines parseDelta lines)"

text \<open>The \<open>while (true)\<close> loop over the reads, inside the outer \<open>try\<close>.\<close>

fun openaiReads ::
  "(string \<Rightarrow> string option) \<Rightarrow> string list \<Rightarrow> TransportEnd \<Rightarrow> StreamChunk list" where
  "openaiReads parseDelta [] Done = []"
| "openaiReads parseDelta [] (ReadFails e) = [Error e]"
| "openaiReads parseDelta (piece # pieces) e =
     (case openaiLines parseDelta (splitLines piece) of
        (chunks, returned) \<Rightarrow>
          if returned then chunks else chunks @ openaiReads parseDelta pieces e)"

definition OpenAI_stream :: "(string \<Rightarrow> string option) \<Rightarrow> Transport \<Rightarrow> StreamChunk list" where
  "OpenAI_stream parseDelta transport =
     (case transport of
        FetchRejects e \<Rightarrow> [Error e]
      | NotOk statusText \<Rightarrow> [Error (''Error: OpenAI API error: '' @ statusText)]
      | NoBody \<Rightarrow> [Error ''Error: No response body'']
      | Body pieces e \<Rightarrow> Start # openaiReads parseDelta pieces e)"

text \<open>
  The events \<open>AnthropicProvider.stream\<close> tells apart by \<open>data.type\<close>. \<open>parseEvent\<close>
  stands for \<open>JSON.parse\<close> and the read of \<open>data.delta.text\<close>; it is \<open>None\<close> when the
  \<open>try\<close> block raised.
\<close>

datatype AnthropicEvent =
  ContentBlockDelta "string option"
| MessageStop
| OtherEvent

fun anthropicLines :: "(string \<Rightarrow> AnthropicEvent option) \<Rightarrow> string list \<Rightarrow> StreamChunk list" where
  "anthropicLines parseEvent [] = []"
| "anthropicLines parseEvent (line # lines) =
     (if startsWith line ''data: '' then
        (case parseEvent (drop 6 line) of
           Some (ContentBlockDelta text) \<Rightarrow> [Content text]
         | Some MessageStop \<Rightarrow> [End]
         | Some OtherEvent \<Rightarrow> []
         | None \<Rightarrow> [])
      else []) @ anthropicLines parseEvent lines"

fun anthropicReads ::
  "(string \<Rightarrow> AnthropicEvent option) \<Rightarrow> string list \<Rightarrow> TransportEnd \<Rightarrow> StreamChunk list" where
  "anthropicReads parseEvent [] Done = []"
| "anthropicReads parseEvent [] (ReadFails e) = [Error e]"
| "anthropicReads parseEvent (piece # pieces) e =
     anthropicLines parseEvent (splitLines piece) @ anthropicReads parseEvent pieces e"

definition Anthropic_stream ::
  "(string \<Rightarrow> AnthropicEvent option) \<Rightarrow> Transport \<Rightarrow> StreamChunk list" where
  "Anthropic_stream parseEvent transport =
     (case transport of
        FetchRejects e \<Rightarrow> [Error e]
      | NotOk statusText \<Rightarrow> [Error (''Error: Anthropic API error: '' @ statusText)]
      | NoBody \<Rightarrow> [Error ''Error: No response body'']
      | Body pieces e \<Rightarrow> Start # anthropicReads parseEvent pieces e)"

text \<open>The shape of a complete stream, in the words of the specification.\<close>

fun isContent :: "StreamChunk \<Rightarrow> bool" where
  "isContent (Content text) = True"
| "isContent chunk = False"

fun isTerminal :: "StreamChunk \<Rightarrow> bool" where
  "isTerminal End = True"
| "isTerminal (Error e) = True"
| "isTerminal chunk = False"

fun isError :: "StreamChunk \<Rightarrow> bool" where
  "isError (Error e) = True"
| "isError chunk = False"

definition completeStream :: "StreamChunk list \<Rightarrow> bool" where
  "completeStream chunks =
     (case chunks of
        [] \<Rightarrow> False
      | first # rest \<Rightarrow>
          first = Start \<and> rest \<noteq> [] \<and> list_all isContent (butlast rest) \<and> isTerminal (last rest))"

text \<open>A parser for the examples: the text after \<open>c:\<close> is content, anything else does not parse.\<close>

definition exampleDelta :: "string \<Rightarrow> string option" where
  "exampleDelta data = (if startsWith data ''c:'' then Some (drop 2 data) else None)"

definition exampleEvent :: "string \<Rightarrow> AnthropicEvent option" where
  "exampleEvent data =
     (if startsWith data ''c:'' then Some (ContentBlockDelta (Some (drop 2 data)))
      else if data = ''stop'' then Some MessageStop
      else None)"

definition examplePieces :: "string list" where
  "examplePieces = [''data: c:hi'' @ [CHR 0x0A] @ ''junk'', ''data: c:there'' @ [CHR 0x0A]]"

section \<open>Properties\<close>

subsection \<open>What selection and rate limiting leave unchanged\<close>

lemma trackRequest_frame [simp]:
  "activeRequests (trackRequest clk n r) = activeRequests r"
  "providers (trackRequest clk n r) = providers r"
  "providerConfigs (trackRequest clk n r) = providerConfigs r"
  by (simp_all add: trackRequest_def Date_now_def Let_def)

lemma checkRateLimit_frame [simp]:
  "activeRequests (snd (checkRateLimit clk n r)) = activeRequests r"
  "providers (snd (checkRateLimit clk n r)) = providers r"
  "providerConfigs (snd (checkRateLimit clk n r)) = providerConfigs r"
  by (simp_all add: checkRateLimit_def Date_now_def Let_def split: option.splits)

lemma selectLoop_frame:
  "activeRequests (snd (selectLoop clk ps r)) = activeRequests r \<and>
   providers (snd (selectLoop clk ps r)) = providers r \<and>
   providerConfigs (snd (selectLoop clk ps r)) = providerConfigs r"
proof (induction ps arbitrary: r)
  case Nil
  show ?case by simp
next
  case (Cons entry ps)
  obtain n p where entry: "entry = (n, p)" by (cases entry)
  obtain passed r1 where chk: "checkRateLimit clk n r = (passed, r1)"
    by (cases "checkRateLimit clk n r")
  have r1: "activeRequests r1 = activeRequests r" "providers r1 = providers r"
    "providerConfigs r1 = providerConfigs r"
    using checkRateLimit_frame [of clk n r] by (simp_all add: chk)
  show ?case
    using Cons.IH [of r] Cons.IH [of r1] by (simp add: entry chk r1)
qed

lemma selectProvider_frame [simp]:
  "activeRequests (snd (selectProvider clk r)) = activeRequests r"
  "providers (snd (selectProvider clk r)) = providers r"
  "providerConfigs (snd (selectProvider clk r)) = providerConfigs r"
  by (simp_all add: selectProvider_def selectLoop_frame)

lemma activeCount_cong: "activeRequests r' = activeRequests r \<Longrightarrow> activeCount r' = activeCount r"
  by (rule ext) (simp add: activeCount_def)

lemma activeCount_increment:
  "activeCount (incrementActiveRequests n r) m = (if m = n then activeCount r n + 1 else activeCount r m)"
  by (simp add: incrementActiveRequests_def activeCount_def)

lemma activeCount_decrement:
  "activeCount (decrementActiveRequests n r) m =
     (if m = n then max 0 (activeCount r n - 1) else activeCount r m)"
  by (simp add: decrementActiveRequests_def activeCount_def)

lemma providers_increment [simp]: "providers (incrementActiveRequests n r) = providers r"
  by (simp add: incrementActiveRequests_def)

lemma getProviderName_cong: "providers r' = providers r \<Longrightarrow> getProviderName r' p = getProviderName r p"
  by (simp add: getProviderName_def)

lemma invoke_activeCount:
  "activeCount (snd (snd (invoke clk adapter request r))) m =
     (case fst (selectProvider clk r) of
        None \<Rightarrow> activeCount r m
      | Some p \<Rightarrow> if m = getProviderName r p then max 0 (activeCount r m) else activeCount r m)"
proof (cases "selectProvider clk r")
  case (Pair sel r1)
  have r1: "activeRequests r1 = activeRequests r" "providers r1 = providers r"
    using selectProvider_frame [of clk r] by (simp_all add: Pair)
  show ?thesis
    by (cases sel)
      (simp_all add: invoke_def Pair Let_def activeCount_decrement activeCount_increment
        getProviderName_cong [OF r1(2)] activeCount_cong [OF r1(1)]
        getProviderName_cong [of "incrementActiveRequests n r1" r1 for n])
qed

lemma stream_activeCount:
  "activeCount (snd (snd (stream clk adapter request consumer r))) m =
     (if consumer = CancelAfter 0 then activeCount r m else
      case fst (selectProvider clk r) of
        None \<Rightarrow> activeCount r m
      | Some p \<Rightarrow> if m = getProviderName r p then max 0 (activeCount r m) else activeCount r m)"
proof (cases "selectProvider clk r")
  case (Pair sel r1)
  have r1: "activeRequests r1 = activeRequests r" "providers r1 = providers r"
    using selectProvider_frame [of clk r] by (simp_all add: Pair)
  show ?thesis
    by (cases sel)
      (simp_all add: stream_def Pair Let_def activeCount_decrement activeCount_increment
        getProviderName_cong [OF r1(2)] activeCount_cong [OF r1(1)])
qed

subsection \<open>The active-request counter\<close>

lemma initializeProviders_nonneg:
  "(\<forall>m. 0 \<le> activeCount r m) \<Longrightarrow> 0 \<le> activeCount (initializeProviders cs r) m"
proof (induction cs arbitrary: r)
  case Nil
  then show ?case by simp
next
  case (Cons c cs)
  show ?case
  proof (cases "enabled c \<and> newProvider c \<noteq> None")
    case False
    then show ?thesis using Cons by auto
  next
    case True
    then obtain p where p: "newProvider c = Some p" by auto
    let ?r = "r\<lparr>providers := Map_set (name c) p (providers r),
                 activeRequests := (activeRequests r)(name c \<mapsto> 0),
                 rateLimitTracker := (rateLimitTracker r)(name c \<mapsto> [])\<rparr>"
    have "\<forall>m. 0 \<le> activeCount ?r m"
      using Cons.prems by (simp add: activeCount_def)
    then have "0 \<le> activeCount (initializeProviders cs ?r) m"
      by (rule Cons.IH)
    then show ?thesis using True p by simp
  qed
qed

lemma constructor_nonneg: "0 \<le> activeCount (constructor configs) m"
  unfolding constructor_def Let_def
  by (rule initializeProviders_nonneg) (simp add: activeCount_def)

lemma perform_nonneg:
  assumes "\<forall>m. 0 \<le> activeCount r m"
  shows "0 \<le> activeCount (perform clk op r) m"
proof (cases op)
  case (CallInvoke adapter request)
  then show ?thesis using assms
    by (simp add: invoke_activeCount split: option.splits)
next
  case (CallStream adapter request consumer)
  then show ?thesis using assms
    by (simp add: stream_activeCount split: option.splits)
next
  case CallGetStatus
  then show ?thesis using assms by (simp add: getStatus_def)
next
  case CallSelectProvider
  then show ?thesis using assms
    by (simp add: activeCount_cong [of "snd (selectProvider clk r)" r])
next
  case (CallIncrement n)
  then show ?thesis using assms spec [OF assms, of n]
    by (simp add: activeCount_increment)
next
  case (CallDecrement n)
  then show ?thesis using assms by (simp add: activeCount_decrement)
qed

lemma performAll_nonneg:
  "(\<forall>m. 0 \<le> activeCount r m) \<Longrightarrow> 0 \<le> activeCount (performAll clk ops r) m"
  unfolding performAll_def
proof (induction ops arbitrary: r m)
  case Nil
  then show ?case by simp
next
  case (Cons op ops)
  have "\<forall>m. 0 \<le> activeCount (perform clk op r) m"
    using perform_nonneg [OF Cons.prems] by blast
  then show ?case using Cons.IH by simp
qed

lemma constructor_openai:
  "constructor [openaiConfig] =
     \<lparr>providers = [(''openai'', OpenAIProvider ''k1'')], providerConfigs = [openaiConfig],
      activeRequests = [''openai'' \<mapsto> 0], rateLimitTracker = [''openai'' \<mapsto> []],
      clockReads = 0\<rparr>"
  by (simp add: constructor_def openaiConfig_def newProvider_def)

text \<open>
  Claim C7. The active-request counter of every backend is never negative: it is so in
  every state reached from a freshly constructed router by any sequence of router
  operations; every operation preserves it from any state; the increment adds one and the
  decrement subtracts one clamped at zero, so that a decrement of a zero counter leaves zero.
\<close>

theorem activeCount_never_negative:
  "0 \<le> activeCount (performAll clk ops (constructor configs)) providerName
   \<and> ((\<forall>m. 0 \<le> activeCount r m) \<longrightarrow> (\<forall>m. 0 \<le> activeCount (perform clk op r) m))
   \<and> activeCount (incrementActiveRequests providerName r) providerName
       = activeCount r providerName + 1
   \<and> activeCount (decrementActiveRequests providerName r) providerName
       = max 0 (activeCount r providerName - 1)
   \<and> 0 \<le> activeCount (decrementActiveRequests providerName r) providerName"
proof -
  have "\<forall>m. 0 \<le> activeCount (constructor configs) m"
    by (simp add: constructor_nonneg)
  then have "0 \<le> activeCount (performAll clk ops (constructor configs)) providerName"
    by (rule performAll_nonneg)
  moreover have "(\<forall>m. 0 \<le> activeCount r m) \<longrightarrow> (\<forall>m. 0 \<le> activeCount (perform clk op r) m)"
    using perform_nonneg by blast
  ultimately show ?thesis
    by (simp add: activeCount_increment activeCount_decrement)
qed

theorem activeCount_never_negative_witness:
  "(\<forall>m. 0 \<le> activeCount (constructor [openaiConfig]) m)
   \<and> (\<forall>m. 0 \<le> activeCount
          (perform (\<lambda>k. 1000) (CallDecrement ''openai'' :: unit operation) (constructor [openaiConfig])) m)
   \<and> activeCount (decrementActiveRequests ''openai'' (constructor [openaiConfig])) ''openai'' = 0"
proof -
  have h: "\<forall>m. 0 \<le> activeCount (constructor [openaiConfig]) m"
    by (simp add: constructor_openai activeCount_def)
  show ?thesis
    using h activeCount_never_negative [of "\<lambda>k. 1000" "[] :: unit operation list" "[openaiConfig]"
        "''openai''" "constructor [openaiConfig]" "CallDecrement ''openai''"]
    by (simp add: constructor_openai activeCount_def)
qed

subsection \<open>Increment and decrement are paired\<close>

lemma invoke_trace:
  "fst (snd (invoke clk adapter request r)) =
     (case fst (selectProvider clk r) of
        None \<Rightarrow> []
      | Some p \<Rightarrow> [Enter (getProviderName r p), AdapterInvoke (getProviderName r p),
                    Leave (getProviderName r p)])"
proof (cases "selectProvider clk r")
  case (Pair sel r1)
  have r1: "providers r1 = providers r"
    using selectProvider_frame [of clk r] by (simp add: Pair)
  show ?thesis
    by (cases sel)
      (simp_all add: invoke_def Pair Let_def getProviderName_cong [OF r1]
        getProviderName_cong [of "incrementActiveRequests n r1" r1 for n])
qed

lemma stream_trace:
  "fst (snd (stream clk adapter request consumer r)) =
     (if consumer = CancelAfter 0 then [] else
      case fst (selectProvider clk r) of
        None \<Rightarrow> []
      | Some p \<Rightarrow> [Enter (getProviderName r p), AdapterStream (getProviderName r p),
                    Leave (getProviderName r p)])"
proof (cases "selectProvider clk r")
  case (Pair sel r1)
  have r1: "providers r1 = providers r"
    using selectProvider_frame [of clk r] by (simp add: Pair)
  show ?thesis
    by (cases sel) (simp_all add: stream_def Pair Let_def getProviderName_cong [OF r1])
qed

lemma checkRateLimit_openai_fresh:
  "checkRateLimit (\<lambda>k. 1000) ''openai'' (constructor [openaiConfig]) =
     (True, (constructor [openaiConfig])\<lparr>rateLimitTracker := [''openai'' \<mapsto> [1000]], clockReads := 3\<rparr>)"
  unfolding constructor_openai
  by (simp add: checkRateLimit_def findConfig_def trackRequest_def
      Date_now_def trackerOf_def openaiConfig_def numeral_3_eq_3)

lemma selectProvider_openai_fresh:
  "selectProvider (\<lambda>k. 1000) (constructor [openaiConfig]) =
     (Some (OpenAIProvider ''k1''),
      (constructor [openaiConfig])\<lparr>rateLimitTracker := [''openai'' \<mapsto> [1000]], clockReads := 3\<rparr>)"
  unfolding selectProvider_def
  apply (simp add: sortedProviders_def constructor_openai isProviderAvailable_def)
  apply (simp add: checkRateLimit_openai_fresh [unfolded constructor_openai])
  apply (simp add: findConfig_def activeCount_def openaiConfig_def)
  done

lemma invoke_openai_rejects:
  "invoke (\<lambda>k. 1000) (\<lambda>p q. Rejects ''down'') () (constructor [openaiConfig]) =
     (Inl (AdapterFailure ''down''),
      [Enter ''openai'', AdapterInvoke ''openai'', Leave ''openai''],
      (constructor [openaiConfig])\<lparr>rateLimitTracker := [''openai'' \<mapsto> [1000]], clockReads := 3\<rparr>)"
  by (simp add: invoke_def selectProvider_openai_fresh)
    (simp add: constructor_openai getProviderName_def incrementActiveRequests_def
      decrementActiveRequests_def activeCount_def Let_def)

text \<open>
  Claim C1. For every call of \<open>invoke\<close> and of \<open>stream\<close>, whatever the adapter does
  (resolve, raise, reject; yield and complete, yield and raise) and whatever the consumer of
  the stream does (take everything, or cancel after any number of chunks), every backend's
  active count after the call equals its value before the call, and the call performs the
  decrement exactly as often as the increment, at most once each. A cancelled stream is one
  whose consumer calls \<open>return()\<close> on the generator.
\<close>

theorem leave_once_per_enter:
  assumes "\<forall>m. 0 \<le> activeCount r m"
  shows "activeCount (snd (snd (invoke clk adapter request r))) providerName
           = activeCount r providerName
       \<and> activeCount (snd (snd (stream clk streamAdapter request consumer r))) providerName
           = activeCount r providerName
       \<and> count_list (fst (snd (invoke clk adapter request r))) (Leave providerName)
           = count_list (fst (snd (invoke clk adapter request r))) (Enter providerName)
       \<and> count_list (fst (snd (invoke clk adapter request r))) (Enter providerName) \<le> 1
       \<and> count_list (fst (snd (stream clk streamAdapter request consumer r))) (Leave providerName)
           = count_list (fst (snd (stream clk streamAdapter request consumer r))) (Enter providerName)
       \<and> count_list (fst (snd (stream clk streamAdapter request consumer r))) (Enter providerName) \<le> 1"
proof -
  have nonneg: "max 0 (activeCount r m) = activeCount r m" for m
    using assms by (simp add: max_def)
  have a: "activeCount (snd (snd (invoke clk adapter request r))) providerName
             = activeCount r providerName"
    by (simp add: invoke_activeCount nonneg split: option.splits)
  have b: "activeCount (snd (snd (stream clk streamAdapter request consumer r))) providerName
             = activeCount r providerName"
    by (simp add: stream_activeCount nonneg split: option.splits)
  have c: "count_list (fst (snd (invoke clk adapter request r))) (Leave providerName)
             = count_list (fst (snd (invoke clk adapter request r))) (Enter providerName)
         \<and> count_list (fst (snd (invoke clk adapter request r))) (Enter providerName) \<le> 1"
    by (simp add: invoke_trace split: option.splits)
  have d: "count_list (fst (snd (stream clk streamAdapter request consumer r))) (Leave providerName)
             = count_list (fst (snd (stream clk streamAdapter request consumer r))) (Enter providerName)
         \<and> count_list (fst (snd (stream clk streamAdapter request consumer r))) (Enter providerName) \<le> 1"
    by (simp add: stream_trace split: option.splits)
  show ?thesis using a b c d by blast
qed

theorem leave_once_per_enter_witness:
  "(\<forall>m. 0 \<le> activeCount (constructor [openaiConfig]) m)
   \<and> activeCount (snd (snd (invoke (\<lambda>k. 1000) (\<lambda>p q. Rejects ''down'') ()
        (constructor [openaiConfig])))) ''openai'' = 0
   \<and> activeCount (snd (snd (stream (\<lambda>k. 1000) (\<lambda>p q. Yields [Start, Content (Some ''a'')] Completes) ()
        (CancelAfter 1) (constructor [openaiConfig])))) ''openai'' = 0
   \<and> fst (snd (invoke (\<lambda>k. 1000) (\<lambda>p q. Rejects ''down'') () (constructor [openaiConfig])))
        = [Enter ''openai'', AdapterInvoke ''openai'', Leave ''openai'']"
proof -
  have h: "\<forall>m. 0 \<le> activeCount (constructor [openaiConfig]) m"
    by (simp add: constructor_openai activeCount_def)
  have ev: "fst (snd (invoke (\<lambda>k. 1000) (\<lambda>p q. Rejects ''down'') () (constructor [openaiConfig])))
        = [Enter ''openai'', AdapterInvoke ''openai'', Leave ''openai'']"
    by (simp add: invoke_openai_rejects)
  have z: "activeCount (constructor [openaiConfig]) ''openai'' = 0"
    by (simp add: constructor_openai activeCount_def)
  show ?thesis
    using h ev z leave_once_per_enter [OF h, of "\<lambda>k. 1000" "\<lambda>p q. Rejects ''down''" "()" "''openai''"
        "\<lambda>p q. Yields [Start, Content (Some ''a'')] Completes" "CancelAfter 1"]
    by simp
qed

subsection \<open>Which providers selection can return\<close>

lemma findConfig_cong:
  "providerConfigs r' = providerConfigs r \<Longrightarrow> findConfig r' n = findConfig r n"
  by (simp add: findConfig_def)

lemma checkRateLimit_nonpositive:
  assumes "findConfig r n = Some c" and "rateLimitPerMinute c \<le> 0"
  shows "fst (checkRateLimit clk n r) = False"
proof -
  have "rateLimitPerMinute c \<le> int k" for k
    using assms(2) by linarith
  then show ?thesis
    using assms(1) by (simp add: checkRateLimit_def Date_now_def Let_def)
qed

lemma checkRateLimit_passed_config:
  assumes "fst (checkRateLimit clk n r) = True"
  shows "\<exists>c. findConfig r n = Some c \<and> 0 < rateLimitPerMinute c"
proof (cases "findConfig r n")
  case None
  then show ?thesis using assms by (simp add: checkRateLimit_def)
next
  case (Some c)
  then show ?thesis
    using assms checkRateLimit_nonpositive [OF Some, of clk] by (cases "0 < rateLimitPerMinute c") auto
qed

lemma selectLoop_Some:
  "fst (selectLoop clk ps r) = Some p \<Longrightarrow>
     \<exists>n c. (n, p) \<in> set ps \<and> findConfig r n = Some c \<and> 0 < rateLimitPerMinute c"
proof (induction ps arbitrary: r)
  case Nil
  then show ?case by simp
next
  case (Cons entry ps)
  obtain n q where entry: "entry = (n, q)" by (cases entry)
  obtain passed r1 where chk: "checkRateLimit clk n r = (passed, r1)"
    by (cases "checkRateLimit clk n r")
  have r1: "providerConfigs r1 = providerConfigs r"
    using checkRateLimit_frame(3) [of clk n r] by (simp add: chk)
  have step: "\<exists>n c. (n, p) \<in> set ps \<and> findConfig r n = Some c \<and> 0 < rateLimitPerMinute c"
    if "fst (selectLoop clk ps r') = Some p" and "providerConfigs r' = providerConfigs r" for r'
    using Cons.IH [OF that(1)] findConfig_cong [OF that(2)] by simp
  show ?case
  proof (cases "fst (selectLoop clk (entry # ps) r) = fst (selectLoop clk ps r)
              \<or> fst (selectLoop clk (entry # ps) r) = fst (selectLoop clk ps r1)")
    case True
    then have "fst (selectLoop clk ps r) = Some p \<or> fst (selectLoop clk ps r1) = Some p"
      using Cons.prems by auto
    then show ?thesis using step [of r] step [of r1] r1 by auto
  next
    case False
    then have sel: "passed" "q = p"
      using Cons.prems by (auto simp: entry chk split: if_splits)
    have "fst (checkRateLimit clk n r) = True" using sel chk by simp
    from checkRateLimit_passed_config [OF this] show ?thesis
      using sel by (auto simp: entry)
  qed
qed

lemma set_sortedProviders [simp]: "set (sortedProviders r) = set (providers r)"
  by (simp add: sortedProviders_def)

lemma selectProvider_Some:
  "fst (selectProvider clk r) = Some p \<Longrightarrow>
     \<exists>n c. (n, p) \<in> set (providers r) \<and> findConfig r n = Some c \<and> 0 < rateLimitPerMinute c"
  using selectLoop_Some [of clk "sortedProviders r" r p] by (simp add: selectProvider_def)

lemma find_distinct_snd:
  "distinct (map snd xs) \<Longrightarrow> (n, p) \<in> set xs \<Longrightarrow> find (\<lambda>entry. snd entry = p) xs = Some (n, p)"
proof (induction xs)
  case Nil
  then show ?case by simp
next
  case (Cons x xs)
  then show ?case by (cases x) force
qed

lemma getProviderName_entry:
  "wellFormed r \<Longrightarrow> (n, p) \<in> set (providers r) \<Longrightarrow> getProviderName r p = n"
  by (simp add: wellFormed_def getProviderName_def find_distinct_snd)

lemma selectLoop_all_limited:
  "\<forall>c \<in> set (providerConfigs r). rateLimitPerMinute c \<le> 0 \<Longrightarrow> fst (selectLoop clk ps r) = None"
proof (cases "fst (selectLoop clk ps r)")
  case None
  then show ?thesis by simp
next
  case (Some p)
  assume all: "\<forall>c \<in> set (providerConfigs r). rateLimitPerMinute c \<le> 0"
  from selectLoop_Some [OF Some] obtain n c where
    c: "findConfig r n = Some c" "0 < rateLimitPerMinute c" by blast
  have "c \<in> set (providerConfigs r)"
    using c(1) by (auto simp: findConfig_def find_Some_iff)
  then show ?thesis using all c(2) by auto
qed

lemma newProvider_key: "newProvider c = Some p \<Longrightarrow> providerKey p = name c"
  by (auto simp: newProvider_def providerKey_def split: if_splits)

lemma set_Map_set: "set (Map_set k v m) \<subseteq> insert (k, v) (set m)"
  by (induction m) (auto split: if_splits)

lemma keys_Map_set: "fst ` set (Map_set k v m) = insert k (fst ` set m)"
proof (induction m)
  case Nil
  show ?case by simp
next
  case (Cons e m)
  then show ?case by (cases e) (simp add: insert_commute)
qed

lemma distinct_Map_set: "distinct (map fst m) \<Longrightarrow> distinct (map fst (Map_set k v m))"
proof (induction m)
  case Nil
  then show ?case by simp
next
  case (Cons e m)
  obtain k' v' where e: "e = (k', v')" by (cases e)
  show ?case
  proof (cases "k' = k")
    case True
    then show ?thesis using Cons.prems by (simp add: e)
  next
    case False
    have "k' \<notin> fst ` set (Map_set k v m)"
      using Cons.prems False by (simp add: keys_Map_set e)
    then show ?thesis using Cons False by (simp add: e)
  qed
qed

lemma initializeProviders_keyed: "keyed r \<Longrightarrow> keyed (initializeProviders cs r)"
proof (induction cs arbitrary: r)
  case Nil
  then show ?case by simp
next
  case (Cons c cs)
  show ?case
  proof (cases "enabled c \<and> newProvider c \<noteq> None")
    case False
    then show ?thesis using Cons by auto
  next
    case True
    then obtain p where p: "newProvider c = Some p" by auto
    let ?r = "r\<lparr>providers := Map_set (name c) p (providers r),
                 activeRequests := (activeRequests r)(name c \<mapsto> 0),
                 rateLimitTracker := (rateLimitTracker r)(name c \<mapsto> [])\<rparr>"
    have "keyed ?r"
      using Cons.prems newProvider_key [OF p] set_Map_set [of "name c" p "providers r"]
      by (auto simp: keyed_def distinct_Map_set)
    then have "keyed (initializeProviders cs ?r)" by (rule Cons.IH)
    then show ?thesis using True p by simp
  qed
qed

lemma keyed_wellFormed: "keyed r \<Longrightarrow> wellFormed r"
proof -
  assume k: "keyed r"
  have eq: "map fst (providers r) = map (providerKey \<circ> snd) (providers r)"
    by (rule map_cong) (use k in \<open>auto simp: keyed_def\<close>)
  have "distinct (map fst (providers r))"
    using k by (simp add: keyed_def)
  then have "distinct (map (providerKey \<circ> snd) (providers r))"
    unfolding eq .
  then have "distinct (map snd (providers r))"
    by (auto simp: distinct_map inj_on_def)
  then show ?thesis using k by (simp add: wellFormed_def keyed_def)
qed

lemma constructor_wellFormed: "wellFormed (constructor configs)"
  unfolding constructor_def Let_def
  by (rule keyed_wellFormed, rule initializeProviders_keyed) (simp add: keyed_def)

lemma providers_perform [simp]: "providers (perform clk op r) = providers r"
  by (cases op) (simp_all add: invoke_def stream_def getStatus_def Let_def
      decrementActiveRequests_def incrementActiveRequests_def split: prod.splits option.splits,
      (metis selectProvider_frame(2) snd_conv)+)

subsection \<open>Rate limits of zero or less\<close>

lemma constructor_unlimited:
  "constructor [unlimitedConfig] =
     \<lparr>providers = [(''openai'', OpenAIProvider ''k0'')], providerConfigs = [unlimitedConfig],
      activeRequests = [''openai'' \<mapsto> 0], rateLimitTracker = [''openai'' \<mapsto> []],
      clockReads = 0\<rparr>"
  by (simp add: constructor_def unlimitedConfig_def newProvider_def)

text \<open>
  Claim C10. A backend whose configuration (the one the router finds under its name) has a
  rate limit of zero or less fails the rate-limit check on every call, whatever its window
  holds, an empty window included; it is never the provider that selection returns, and no
  call of \<open>invoke\<close> or \<open>stream\<close> reaches its adapter. When every configuration has such
  a limit, \<open>invoke\<close> and every started \<open>stream\<close> fail with the no-available-provider
  error and call no adapter.
\<close>

theorem nonpositive_rate_limit_never_selected:
  "(findConfig r providerName = Some config \<and> rateLimitPerMinute config \<le> 0 \<longrightarrow>
      fst (checkRateLimit clk providerName r) = False)
   \<and> (wellFormed r \<and> findConfig r providerName = Some config \<and> rateLimitPerMinute config \<le> 0 \<longrightarrow>
        (\<forall>provider. (providerName, provider) \<in> set (providers r) \<longrightarrow>
            fst (selectProvider clk r) \<noteq> Some provider)
        \<and> AdapterInvoke providerName \<notin> set (fst (snd (invoke clk adapter request r)))
        \<and> AdapterStream providerName
             \<notin> set (fst (snd (stream clk streamAdapter request consumer r))))
   \<and> ((\<forall>c \<in> set (providerConfigs r). rateLimitPerMinute c \<le> 0) \<longrightarrow>
        fst (invoke clk adapter request r) = Inl NoAvailableProviders
        \<and> fst (snd (invoke clk adapter request r)) = []
        \<and> (consumer \<noteq> CancelAfter 0 \<longrightarrow>
             fst (stream clk streamAdapter request consumer r) = ([], Failed NoAvailableProviders))
        \<and> fst (snd (stream clk streamAdapter request consumer r)) = [])"
proof -
  have a: "fst (checkRateLimit clk providerName r) = False"
    if "findConfig r providerName = Some config" "rateLimitPerMinute config \<le> 0"
    using that by (rule checkRateLimit_nonpositive)
  have sel: "getProviderName r p \<noteq> providerName \<and> (providerName, p) \<notin> set (providers r)"
    if wf: "wellFormed r" and c: "findConfig r providerName = Some config"
      "rateLimitPerMinute config \<le> 0" and p: "fst (selectProvider clk r) = Some p" for p
  proof -
    from selectProvider_Some [OF p] obtain n c where
      n: "(n, p) \<in> set (providers r)" "findConfig r n = Some c" "0 < rateLimitPerMinute c"
      by blast
    have ne: "n \<noteq> providerName" using n(2,3) c by auto
    have "getProviderName r p = n" using wf n(1) by (rule getProviderName_entry)
    moreover have "(providerName, p) \<notin> set (providers r)"
      using getProviderName_entry [OF wf, of providerName p] calculation ne by auto
    ultimately show ?thesis using ne by simp
  qed
  have b: "(\<forall>provider. (providerName, provider) \<in> set (providers r) \<longrightarrow>
            fst (selectProvider clk r) \<noteq> Some provider)
        \<and> AdapterInvoke providerName \<notin> set (fst (snd (invoke clk adapter request r)))
        \<and> AdapterStream providerName
             \<notin> set (fst (snd (stream clk streamAdapter request consumer r)))"
    if "wellFormed r" "findConfig r providerName = Some config" "rateLimitPerMinute config \<le> 0"
  proof -
    have s: "fst (selectProvider clk r) = Some p \<Longrightarrow>
               getProviderName r p \<noteq> providerName \<and> (providerName, p) \<notin> set (providers r)" for p
      by (rule sel [OF that])
    show ?thesis
    proof (cases "fst (selectProvider clk r)")
      case None
      then show ?thesis by (simp add: invoke_trace stream_trace)
    next
      case (Some p)
      then show ?thesis using s [OF Some] by (auto simp: invoke_trace stream_trace)
    qed
  qed
  have none: "fst (selectProvider clk r) = None"
    if "\<forall>c \<in> set (providerConfigs r). rateLimitPerMinute c \<le> 0"
    using that by (simp add: selectProvider_def selectLoop_all_limited)
  have c: "fst (invoke clk adapter request r) = Inl NoAvailableProviders
        \<and> fst (snd (invoke clk adapter request r)) = []
        \<and> (consumer \<noteq> CancelAfter 0 \<longrightarrow>
             fst (stream clk streamAdapter request consumer r) = ([], Failed NoAvailableProviders))
        \<and> fst (snd (stream clk streamAdapter request consumer r)) = []"
    if "\<forall>c \<in> set (providerConfigs r). rateLimitPerMinute c \<le> 0"
    using none [OF that]
    by (cases "selectProvider clk r") (simp add: invoke_def stream_def)
  show ?thesis using a b c by blast
qed

theorem nonpositive_rate_limit_never_selected_witness:
  "wellFormed (constructor [unlimitedConfig])
   \<and> findConfig (constructor [unlimitedConfig]) ''openai'' = Some unlimitedConfig
   \<and> rateLimitPerMinute unlimitedConfig \<le> 0
   \<and> providerConfigs (constructor [unlimitedConfig]) = [unlimitedConfig]
   \<and> ConsumeAll \<noteq> CancelAfter 0
   \<and> trackerOf (constructor [unlimitedConfig]) ''openai'' = []
   \<and> fst (checkRateLimit (\<lambda>k. 1000) ''openai'' (constructor [unlimitedConfig])) = False
   \<and> fst (selectProvider (\<lambda>k. 1000) (constructor [unlimitedConfig])) \<noteq> Some (OpenAIProvider ''k0'')
   \<and> fst (invoke (\<lambda>k. 1000) (\<lambda>p q. Rejects ''down'') () (constructor [unlimitedConfig]))
        = Inl NoAvailableProviders
   \<and> fst (snd (invoke (\<lambda>k. 1000) (\<lambda>p q. Rejects ''down'') () (constructor [unlimitedConfig]))) = []
   \<and> fst (stream (\<lambda>k. 1000) (\<lambda>p q. Yields [Start, End] Completes) () ConsumeAll
        (constructor [unlimitedConfig])) = ([], Failed NoAvailableProviders)"
proof -
  have wf: "wellFormed (constructor [unlimitedConfig])"
    by (simp add: constructor_unlimited wellFormed_def)
  have fc: "findConfig (constructor [unlimitedConfig]) ''openai'' = Some unlimitedConfig"
    unfolding constructor_unlimited by (simp add: findConfig_def unlimitedConfig_def)
  have rl: "rateLimitPerMinute unlimitedConfig \<le> 0"
    by (simp add: unlimitedConfig_def)
  have al: "\<forall>c \<in> set (providerConfigs (constructor [unlimitedConfig])). rateLimitPerMinute c \<le> 0"
    unfolding constructor_unlimited by (simp add: unlimitedConfig_def)
  have mem: "(''openai'', OpenAIProvider ''k0'') \<in> set (providers (constructor [unlimitedConfig]))"
    by (simp add: constructor_unlimited)
  have tr: "trackerOf (constructor [unlimitedConfig]) ''openai'' = []"
    by (simp add: constructor_unlimited trackerOf_def)
  have pc: "providerConfigs (constructor [unlimitedConfig]) = [unlimitedConfig]"
    by (simp add: constructor_unlimited)
  show ?thesis
    using wf fc rl al mem tr pc
      nonpositive_rate_limit_never_selected [of "constructor [unlimitedConfig]" "''openai''"
        unlimitedConfig "\<lambda>k. 1000" "\<lambda>p q. Rejects ''down''" "()"
        "\<lambda>p q. Yields [Start, End] Completes" ConsumeAll]
    by blast
qed

subsection \<open>Failure of the selected adapter\<close>

lemma constructor_two:
  "constructor [openaiConfig, anthropicConfig] =
     \<lparr>providers = [(''openai'', OpenAIProvider ''k1''), (''anthropic'', AnthropicProvider ''k2'')],
      providerConfigs = [openaiConfig, anthropicConfig],
      activeRequests = [''openai'' \<mapsto> 0, ''anthropic'' \<mapsto> 0],
      rateLimitTracker = [''openai'' \<mapsto> [], ''anthropic'' \<mapsto> []],
      clockReads = 0\<rparr>"
  by (simp add: constructor_def openaiConfig_def anthropicConfig_def newProvider_def)

lemma sortedProviders_two:
  "sortedProviders (constructor [openaiConfig, anthropicConfig]) =
     [(''openai'', OpenAIProvider ''k1''), (''anthropic'', AnthropicProvider ''k2'')]"
  unfolding constructor_two
  by (simp add: sortedProviders_def selectKey_def findConfig_def openaiConfig_def anthropicConfig_def)

lemma selectProvider_two:
  "fst (selectProvider (\<lambda>k. 1000) (constructor [openaiConfig, anthropicConfig]))
     = Some (OpenAIProvider ''k1'')"
  unfolding selectProvider_def sortedProviders_two
  unfolding constructor_two
  by (simp add: isProviderAvailable_def checkRateLimit_def findConfig_def trackRequest_def
      Date_now_def trackerOf_def openaiConfig_def anthropicConfig_def activeCount_def)

lemma getProviderName_two:
  "getProviderName (constructor [openaiConfig, anthropicConfig]) (OpenAIProvider ''k1'') = ''openai''"
  by (simp add: constructor_two getProviderName_def)


lemma invoke_state_independent:
  "snd (snd (invoke clk adapter request r)) = snd (snd (invoke clk adapter' request' r))"
  by (simp add: invoke_def Let_def split: prod.splits option.splits)

lemma invoke_failure:
  assumes "fst (selectProvider clk r) = Some provider"
    and "adapter provider request = Rejects e \<or> adapter provider request = ThrowsSync e"
  shows "fst (invoke clk adapter request r) = Inl (AdapterFailure e)"
  using assms by (cases "selectProvider clk r") (auto simp: invoke_def Let_def)

lemma stream_failure:
  assumes "fst (selectProvider clk r) = Some provider"
    and "streamAdapter provider request = Yields chunks (Throws e)"
  shows "fst (stream clk streamAdapter request ConsumeAll r) = (chunks, Failed (AdapterFailure e))"
  using assms by (cases "selectProvider clk r") (auto simp: stream_def Let_def endOutcome_def)



subsection \<open>The status snapshot\<close>

lemma constructor_disabled:
  "constructor [disabledConfig, openaiConfig] =
     \<lparr>providers = [(''openai'', OpenAIProvider ''k1'')],
      providerConfigs = [disabledConfig, openaiConfig],
      activeRequests = [''openai'' \<mapsto> 0], rateLimitTracker = [''openai'' \<mapsto> []],
      clockReads = 0\<rparr>"
  by (simp add: constructor_def openaiConfig_def disabledConfig_def newProvider_def)

text \<open>
  Claim C6, as stated, fails. A router configured with a disabled Google backend and an
  enabled OpenAI backend reports one entry, for OpenAI: the configured, disabled backend
  has no entry in the snapshot.
\<close>

theorem status_of_disabled_backend_counterexample:
  "disabledConfig \<in> set (providerConfigs (constructor [disabledConfig, openaiConfig]))
   \<and> fst (getStatus (constructor [disabledConfig, openaiConfig]))
       = [\<lparr>statusName = ''openai'', active = 0, available = True\<rparr>]
   \<and> name disabledConfig \<notin> set (map statusName (fst (getStatus (constructor [disabledConfig, openaiConfig]))))"
  unfolding constructor_disabled
  by (simp add: getStatus_def activeCount_def disabledConfig_def)

lemma newProvider_Some_iff:
  "newProvider c \<noteq> None \<longleftrightarrow> name c \<in> {''openai'', ''anthropic'', ''google''}"
  by (simp add: newProvider_def)

lemma newProvider_Some_ex:
  "(\<exists>p. newProvider c = Some p) \<longleftrightarrow> name c \<in> {''openai'', ''anthropic'', ''google''}"
  using newProvider_Some_iff [of c] by auto

lemma initializeProviders_keys:
  "fst ` set (providers (initializeProviders cs r)) =
     fst ` set (providers r) \<union> {name c |c. c \<in> set cs \<and> enabled c \<and> newProvider c \<noteq> None}"
proof (induction cs arbitrary: r)
  case Nil
  show ?case by simp
next
  case (Cons c cs)
  show ?case
  proof (cases "enabled c \<and> newProvider c \<noteq> None")
    case False
    then show ?thesis using Cons.IH [of r] by auto
  next
    case True
    then obtain p where p: "newProvider c = Some p" by auto
    let ?r = "r\<lparr>providers := Map_set (name c) p (providers r),
                 activeRequests := (activeRequests r)(name c \<mapsto> 0),
                 rateLimitTracker := (rateLimitTracker r)(name c \<mapsto> [])\<rparr>"
    have "fst ` set (providers (initializeProviders cs ?r)) =
            fst ` set (providers ?r) \<union> {name c |c. c \<in> set cs \<and> enabled c \<and> newProvider c \<noteq> None}"
      by (rule Cons.IH)
    moreover have "fst ` set (providers ?r) = insert (name c) (fst ` set (providers r))"
      by (simp add: keys_Map_set)
    moreover have "initializeProviders (c # cs) r = initializeProviders cs ?r"
      using True p by simp
    ultimately show ?thesis using True by auto
  qed
qed

lemma constructor_keys:
  "fst ` set (providers (constructor configs)) =
     {name c |c. c \<in> set configs \<and> enabled c \<and> name c \<in> {''openai'', ''anthropic'', ''google''}}"
  unfolding constructor_def Let_def
  by (simp add: initializeProviders_keys newProvider_Some_ex)

lemma providers_performAll [simp]: "providers (performAll clk ops r) = providers r"
  unfolding performAll_def by (induction ops arbitrary: r) simp_all

lemma isProviderAvailable_iff: "isProviderAvailable r n \<longleftrightarrow> n \<in> fst ` set (providers r)"
proof (cases "map_of (providers r) n")
  case None
  then show ?thesis
    by (simp add: isProviderAvailable_def map_of_eq_None_iff [symmetric])
next
  case (Some p)
  then have "(n, p) \<in> set (providers r)" by (rule map_of_SomeD)
  then have "n \<in> fst ` set (providers r)" by force
  then show ?thesis using Some by (simp add: isProviderAvailable_def)
qed

text \<open>
  Claim C6, amended. The snapshot leaves the router state as it is, and holds one entry
  for each entry of \<open>providers\<close>, in its order: a name has an entry exactly when a provider
  adapter is instantiated for it. Every entry has \<open>available\<close> true and the backend's
  current active count, whatever the rate-limit windows hold. In every state reached from
  the constructor the names reported are those of the enabled configurations named
  openai, anthropic or google, each once; a disabled backend is not reported.
\<close>

theorem getStatus_snapshot:
  "snd (getStatus r) = r
   \<and> map statusName (fst (getStatus r)) = map fst (providers r)
   \<and> (\<forall>st \<in> set (fst (getStatus r)). available st \<and> active st = activeCount r (statusName st))
   \<and> ((\<exists>st \<in> set (fst (getStatus r)). statusName st = providerName)
        \<longleftrightarrow> isProviderAvailable r providerName)
   \<and> fst (getStatus (r\<lparr>rateLimitTracker := window\<rparr>)) = fst (getStatus r)
   \<and> set (map statusName (fst (getStatus (performAll clk ops (constructor configs)))))
       = {name c |c. c \<in> set configs \<and> enabled c \<and> name c \<in> {''openai'', ''anthropic'', ''google''}}
   \<and> distinct (map statusName (fst (getStatus (performAll clk ops (constructor configs)))))"
proof -
  have names: "map statusName (fst (getStatus s)) = map fst (providers s)" for s
    by (simp add: getStatus_def comp_def)
  have ex: "(\<exists>st \<in> set (fst (getStatus r)). statusName st = providerName)
        \<longleftrightarrow> providerName \<in> set (map statusName (fst (getStatus r)))"
    by auto
  have d: "distinct (map fst (providers (constructor configs)))"
    using constructor_wellFormed [of configs] by (simp add: wellFormed_def)
  have k: "set (map fst (providers (constructor configs)))
       = {name c |c. c \<in> set configs \<and> enabled c \<and> name c \<in> {''openai'', ''anthropic'', ''google''}}"
    using constructor_keys [of configs] by simp
  have a: "\<forall>st \<in> set (fst (getStatus r)). available st \<and> active st = activeCount r (statusName st)"
    by (auto simp: getStatus_def)
  have w: "fst (getStatus (r\<lparr>rateLimitTracker := window\<rparr>)) = fst (getStatus r)"
    by (simp add: getStatus_def activeCount_def)
  have s: "snd (getStatus r) = r" by (simp add: getStatus_def)
  have e: "(\<exists>st \<in> set (fst (getStatus r)). statusName st = providerName)
        \<longleftrightarrow> isProviderAvailable r providerName"
    unfolding ex names by (simp add: isProviderAvailable_iff)
  show ?thesis
    unfolding names providers_performAll
    using s a e w d k names by simp
qed

theorem getStatus_snapshot_witness:
  "fst (getStatus (constructor [disabledConfig, openaiConfig]))
       = [\<lparr>statusName = ''openai'', active = 0, available = True\<rparr>]
   \<and> snd (getStatus (constructor [disabledConfig, openaiConfig]))
       = constructor [disabledConfig, openaiConfig]
   \<and> isProviderAvailable (constructor [disabledConfig, openaiConfig]) ''openai''
   \<and> \<not> isProviderAvailable (constructor [disabledConfig, openaiConfig]) ''google''
   \<and> map statusName (fst (getStatus (constructor [disabledConfig, openaiConfig]))) = [''openai'']"
proof -
  have ev: "fst (getStatus (constructor [disabledConfig, openaiConfig]))
       = [\<lparr>statusName = ''openai'', active = 0, available = True\<rparr>]"
    unfolding constructor_disabled by (simp add: getStatus_def activeCount_def)
  have pr: "map fst (providers (constructor [disabledConfig, openaiConfig])) = [''openai'']"
    by (simp add: constructor_disabled)
  have g: "\<not> (\<exists>st \<in> set (fst (getStatus (constructor [disabledConfig, openaiConfig]))).
              statusName st = ''google'')"
    unfolding ev by simp
  have o: "\<exists>st \<in> set (fst (getStatus (constructor [disabledConfig, openaiConfig]))).
              statusName st = ''openai''"
    unfolding ev by simp
  show ?thesis
    using ev pr g o
      getStatus_snapshot [of "constructor [disabledConfig, openaiConfig]" "''openai''"
        Map.empty "\<lambda>k. 1000" "[] :: unit operation list" "[]"]
      getStatus_snapshot [of "constructor [disabledConfig, openaiConfig]" "''google''"
        Map.empty "\<lambda>k. 1000" "[] :: unit operation list" "[]"]
    by simp
qed

subsection \<open>The sliding rate-limit window\<close>

lemma checkRateLimit_eq:
  assumes "findConfig r n = Some c"
  shows "checkRateLimit clk n r =
     (if rateLimitPerMinute c
           \<le> int (length (filter (\<lambda>t. clk (clockReads r) - 60000 < t) (trackerOf r n)))
      then (False, r\<lparr>clockReads := Suc (clockReads r)\<rparr>)
      else (True, r\<lparr>clockReads := Suc (Suc (Suc (clockReads r))),
                     rateLimitTracker := (rateLimitTracker r)(n \<mapsto>
                        filter (\<lambda>t. clk (Suc (Suc (clockReads r))) - 60000 < t)
                          (trackerOf r n @ [clk (Suc (clockReads r))]))\<rparr>))"
  using assms
  by (simp add: checkRateLimit_def trackRequest_def Date_now_def trackerOf_def Let_def)

lemma trackerOf_update [simp]:
  "trackerOf (r\<lparr>rateLimitTracker := (rateLimitTracker r)(n \<mapsto> ts)\<rparr>) n = ts"
  "trackerOf (r\<lparr>clockReads := k\<rparr>) m = trackerOf r m"
  by (simp_all add: trackerOf_def)

lemma findConfig_update [simp]:
  "findConfig (r\<lparr>clockReads := k\<rparr>) m = findConfig r m"
  "findConfig (r\<lparr>rateLimitTracker := w\<rparr>) m = findConfig r m"
  by (simp_all add: findConfig_def)

lemma checkRateLimit_config [simp]:
  "findConfig (snd (checkRateLimit clk n r)) m = findConfig r m"
  by (simp add: findConfig_def)

lemma checkRateLimit_reads: "clockReads r \<le> clockReads (snd (checkRateLimit clk n r))"
  by (cases "findConfig r n") (simp_all add: checkRateLimit_eq, simp add: checkRateLimit_def)

lemma pass_tracker:
  assumes cfg: "findConfig r n = Some c" and pass: "fst (checkRateLimit clk n r)"
  shows "trackerOf (snd (checkRateLimit clk n r)) n
           = filter (\<lambda>t. clk (Suc (Suc (clockReads r))) - 60000 < t)
               (trackerOf r n @ [clk (Suc (clockReads r))])"
  using pass by (simp add: checkRateLimit_eq [OF cfg] trackerOf_def split: if_splits)

lemma filter_window:
  assumes "lo' \<le> (lo::int)"
  shows "filter (\<lambda>t. lo < t) (filter (\<lambda>t. lo' < t) xs) = filter (\<lambda>t. lo < t) xs"
  using assms by (induction xs) auto

lemma pass_step:
  assumes cfg: "findConfig r n = Some c"
    and window: "\<forall>i \<ge> clockReads r. hi - 60000 < clk i \<and> clk i \<le> hi"
    and pass: "fst (checkRateLimit clk n r)"
  shows "filter (\<lambda>t. hi - 60000 < t) (trackerOf (snd (checkRateLimit clk n r)) n)
           = filter (\<lambda>t. hi - 60000 < t) (trackerOf r n) @ [clk (Suc (clockReads r))]"
proof -
  let ?k = "clockReads r"
  have w1: "hi - 60000 < clk (Suc ?k)" and w2: "clk (Suc (Suc ?k)) - 60000 \<le> hi - 60000"
    using window by simp_all
  have "filter (\<lambda>t. hi - 60000 < t) (trackerOf (snd (checkRateLimit clk n r)) n)
          = filter (\<lambda>t. hi - 60000 < t) (trackerOf r n @ [clk (Suc ?k)])"
    unfolding pass_tracker [OF cfg pass] by (rule filter_window [OF w2])
  then show ?thesis using w1 by simp
qed

lemma repeatCheck_count:
  assumes "findConfig r n = Some c"
    and "\<forall>i \<ge> clockReads r. hi - 60000 < clk i \<and> clk i \<le> hi"
    and "fst (repeatCheck clk n j r) = replicate j True"
  shows "length (filter (\<lambda>t. hi - 60000 < t) (trackerOf (snd (repeatCheck clk n j r)) n))
           = length (filter (\<lambda>t. hi - 60000 < t) (trackerOf r n)) + j
       \<and> findConfig (snd (repeatCheck clk n j r)) n = Some c
       \<and> clockReads r \<le> clockReads (snd (repeatCheck clk n j r))"
  using assms
proof (induction j arbitrary: r)
  case 0
  then show ?case by simp
next
  case (Suc j)
  obtain passed r1 where chk: "checkRateLimit clk n r = (passed, r1)"
    by (cases "checkRateLimit clk n r")
  obtain results r2 where rest: "repeatCheck clk n j r1 = (results, r2)"
    by (cases "repeatCheck clk n j r1")
  have passed: "passed" and results: "results = replicate j True"
    using Suc.prems(3) by (simp_all add: chk rest)
  have c1: "findConfig r1 n = Some c"
    using checkRateLimit_config [of clk n r n] Suc.prems(1) by (simp add: chk)
  have reads: "clockReads r \<le> clockReads r1"
    using checkRateLimit_reads [of r clk n] by (simp add: chk)
  have w1: "\<forall>i \<ge> clockReads r1. hi - 60000 < clk i \<and> clk i \<le> hi"
    using Suc.prems(2) reads by auto
  have step: "filter (\<lambda>t. hi - 60000 < t) (trackerOf r1 n)
           = filter (\<lambda>t. hi - 60000 < t) (trackerOf r n) @ [clk (Suc (clockReads r))]"
    using pass_step [OF Suc.prems(1,2)] passed by (simp add: chk)
  have ih: "length (filter (\<lambda>t. hi - 60000 < t) (trackerOf r2 n))
           = length (filter (\<lambda>t. hi - 60000 < t) (trackerOf r1 n)) + j
       \<and> findConfig r2 n = Some c \<and> clockReads r1 \<le> clockReads r2"
    using Suc.IH [OF c1 w1] results by (simp add: rest)
  show ?case using ih step reads by (simp add: chk rest)
qed

lemma length_filter_mono:
  "(\<And>x. P x \<Longrightarrow> Q x) \<Longrightarrow> length (filter P xs) \<le> length (filter Q xs)"
  by (induction xs) auto

lemma limit_reached:
  assumes cfg: "findConfig r n = Some c"
    and window: "\<forall>i \<ge> clockReads r. hi - 60000 < clk i \<and> clk i \<le> hi"
    and full: "rateLimitPerMinute c \<le> int (length (filter (\<lambda>t. hi - 60000 < t) (trackerOf r n)))"
  shows "fst (checkRateLimit clk n r) = False"
proof -
  have "clk (clockReads r) \<le> hi" using window by simp
  then have "hi - 60000 < t \<Longrightarrow> clk (clockReads r) - 60000 < t" for t by linarith
  then have "length (filter (\<lambda>t. hi - 60000 < t) (trackerOf r n))
      \<le> length (filter (\<lambda>t. clk (clockReads r) - 60000 < t) (trackerOf r n))"
    by (rule length_filter_mono)
  then show ?thesis using full by (simp add: checkRateLimit_eq [OF cfg])
qed

lemma repeatCheck_snoc:
  "repeatCheck clk n (Suc j) r =
     (case repeatCheck clk n j r of
        (results, r1) \<Rightarrow>
          (case checkRateLimit clk n r1 of (passed, r2) \<Rightarrow> (results @ [passed], r2)))"
proof (induction j arbitrary: r)
  case 0
  show ?case by (simp split: prod.splits)
next
  case (Suc j)
  obtain passed r1 where chk: "checkRateLimit clk n r = (passed, r1)"
    by (cases "checkRateLimit clk n r")
  obtain results r2 where rest: "repeatCheck clk n j r1 = (results, r2)"
    by (cases "repeatCheck clk n j r1")
  obtain final r3 where chk2: "checkRateLimit clk n r2 = (final, r3)"
    by (cases "checkRateLimit clk n r2")
  have ih: "repeatCheck clk n (Suc j) r1 = (results @ [final], r3)"
    unfolding Suc.IH by (simp add: rest chk2)
  have l: "repeatCheck clk n (Suc (Suc j)) r = (passed # results @ [final], r3)"
    unfolding repeatCheck.simps(2) [of clk n "Suc j" r] chk prod.case ih by simp
  have m: "repeatCheck clk n (Suc j) r = (passed # results, r2)"
    by (simp add: chk rest)
  show ?case unfolding l m by (simp add: chk2)
qed

lemma fresh_pass:
  assumes cfg: "findConfig r n = Some c"
    and window: "\<forall>i \<ge> clockReads r. hi - 60000 < clk i \<and> clk i \<le> hi"
    and inside: "\<forall>t \<in> set (trackerOf r n). hi - 60000 < t"
    and room: "int (length (trackerOf r n)) < rateLimitPerMinute c"
  shows "fst (checkRateLimit clk n r)
       \<and> trackerOf (snd (checkRateLimit clk n r)) n = trackerOf r n @ [clk (Suc (clockReads r))]"
proof -
  have "\<not> rateLimitPerMinute c
          \<le> int (length (filter (\<lambda>t. clk (clockReads r) - 60000 < t) (trackerOf r n)))"
    using room length_filter_le [of "\<lambda>t. clk (clockReads r) - 60000 < t" "trackerOf r n"]
    by linarith
  then have pass: "fst (checkRateLimit clk n r)"
    by (simp add: checkRateLimit_eq [OF cfg])
  have w1: "hi - 60000 < clk (Suc (clockReads r))" and w2: "clk (Suc (Suc (clockReads r))) \<le> hi"
    using window by simp_all
  have "\<forall>t \<in> set (trackerOf r n @ [clk (Suc (clockReads r))]).
          clk (Suc (Suc (clockReads r))) - 60000 < t"
    using inside w1 w2 by auto
  then have "filter (\<lambda>t. clk (Suc (Suc (clockReads r))) - 60000 < t)
               (trackerOf r n @ [clk (Suc (clockReads r))])
             = trackerOf r n @ [clk (Suc (clockReads r))]"
    by (simp only: filter_True)
  then show ?thesis using pass pass_tracker [OF cfg pass] by simp
qed

lemma fresh_passes:
  assumes "findConfig r n = Some c"
    and "\<forall>i \<ge> clockReads r. hi - 60000 < clk i \<and> clk i \<le> hi"
    and "\<forall>t \<in> set (trackerOf r n). hi - 60000 < t"
    and "int (length (trackerOf r n) + j) \<le> rateLimitPerMinute c"
  shows "fst (repeatCheck clk n j r) = replicate j True"
  using assms
proof (induction j arbitrary: r)
  case 0
  show ?case by simp
next
  case (Suc j)
  obtain passed r1 where chk: "checkRateLimit clk n r = (passed, r1)"
    by (cases "checkRateLimit clk n r")
  have room: "int (length (trackerOf r n)) < rateLimitPerMinute c"
    using Suc.prems(4) by simp
  have fp: "passed \<and> trackerOf r1 n = trackerOf r n @ [clk (Suc (clockReads r))]"
    using fresh_pass [OF Suc.prems(1,2,3) room] by (simp add: chk)
  have c1: "findConfig r1 n = Some c"
    using checkRateLimit_config [of clk n r n] Suc.prems(1) by (simp add: chk)
  have reads: "clockReads r \<le> clockReads r1"
    using checkRateLimit_reads [of r clk n] by (simp add: chk)
  have w1: "\<forall>i \<ge> clockReads r1. hi - 60000 < clk i \<and> clk i \<le> hi"
    using Suc.prems(2) reads by auto
  have in1: "\<forall>t \<in> set (trackerOf r1 n). hi - 60000 < t"
    using fp Suc.prems(2,3) by auto
  have room1: "int (length (trackerOf r1 n) + j) \<le> rateLimitPerMinute c"
    using fp Suc.prems(4) by simp
  have "fst (repeatCheck clk n j r1) = replicate j True"
    by (rule Suc.IH [OF c1 w1 in1 room1])
  then show ?case using fp by (cases "repeatCheck clk n j r1") (simp add: chk)
qed

lemma expired_oldest:
  assumes cfg: "findConfig r n = Some c"
    and tr: "trackerOf r n = oldest # rest"
    and len: "int (length (oldest # rest)) \<le> rateLimitPerMinute c"
    and old: "60000 \<le> clk (clockReads r) - oldest"
  shows "fst (checkRateLimit clk n r)"
proof -
  have eq: "filter (\<lambda>t. clk (clockReads r) - 60000 < t) (trackerOf r n)
          = filter (\<lambda>t. clk (clockReads r) - 60000 < t) rest"
    using old by (simp add: tr)
  have room: "int (length rest) < rateLimitPerMinute c"
    using len by simp
  have "\<not> rateLimitPerMinute c
          \<le> int (length (filter (\<lambda>t. clk (clockReads r) - 60000 < t) rest))"
    using room length_filter_le [of "\<lambda>t. clk (clockReads r) - 60000 < t" rest]
    by linarith
  then show ?thesis by (simp add: checkRateLimit_eq [OF cfg] eq)
qed

lemma rejected_unchanged:
  "\<not> fst (checkRateLimit clk n r) \<Longrightarrow>
     rateLimitTracker (snd (checkRateLimit clk n r)) = rateLimitTracker r"
  by (cases "findConfig r n")
    (simp add: checkRateLimit_def, simp add: checkRateLimit_eq split: if_splits)

lemma constructor_limited:
  "constructor [limitedConfig] =
     \<lparr>providers = [(''openai'', OpenAIProvider ''k1'')], providerConfigs = [limitedConfig],
      activeRequests = [''openai'' \<mapsto> 0], rateLimitTracker = [''openai'' \<mapsto> []],
      clockReads = 0\<rparr>"
  by (simp add: constructor_def limitedConfig_def newProvider_def)

lemma findConfig_limited:
  "findConfig (constructor [limitedConfig]) ''openai'' = Some limitedConfig"
  unfolding constructor_limited by (simp add: findConfig_def limitedConfig_def)

lemma two_requests_limited:
  "repeatCheck (\<lambda>k. 1000) ''openai'' (Suc (Suc 0)) (constructor [limitedConfig]) =
     ([True, True],
      \<lparr>providers = [(''openai'', OpenAIProvider ''k1'')], providerConfigs = [limitedConfig],
       activeRequests = [''openai'' \<mapsto> 0], rateLimitTracker = [''openai'' \<mapsto> [1000, 1000]],
       clockReads = 6\<rparr>)"
proof -
  have l: "rateLimitPerMinute limitedConfig = 2" by (simp add: limitedConfig_def)
  have f: "findConfig \<lparr>providers = ps, providerConfigs = [limitedConfig],
       activeRequests = a, rateLimitTracker = w, clockReads = k\<rparr> ''openai'' = Some limitedConfig"
    for ps a w k
    by (simp add: findConfig_def limitedConfig_def)
  show ?thesis
    unfolding constructor_limited
    by (simp add: checkRateLimit_eq [OF f] l trackerOf_def eval_nat_numeral)
qed

text \<open>
  Claim C5. For a backend whose rate limit is \<open>N\<close>: when all readings of the clock lie
  within one window of less than 60 seconds and \<open>N\<close> successive checks have passed, the
  next check returns rate-limited (from an empty window the first \<open>N\<close> checks do pass and
  check \<open>N + 1\<close> fails); a backend whose check fails is skipped by the selection loop,
  which goes on to the next entry. When the window holds at most \<open>N\<close> instants and the
  oldest is 60 seconds old or more, the check passes again. A passing check stores, in the
  same step, the window with the instant read by \<open>trackRequest\<close> appended and pruned, so
  that this instant is its last element (the readings of one call being less than 60
  seconds apart); a failing check leaves every window as it is.
\<close>

theorem rate_limit_window:
  assumes cfg: "findConfig r providerName = Some config"
    and lim: "rateLimitPerMinute config = int N"
  shows
    "((\<forall>i \<ge> clockReads r. hi - 60000 < clk i \<and> clk i \<le> hi)
        \<and> fst (repeatCheck clk providerName N r) = replicate N True \<longrightarrow>
          fst (repeatCheck clk providerName (Suc N) r) = replicate N True @ [False])
     \<and> ((\<forall>i \<ge> clockReads r. hi - 60000 < clk i \<and> clk i \<le> hi)
        \<and> trackerOf r providerName = [] \<longrightarrow>
          fst (repeatCheck clk providerName (Suc N) r) = replicate N True @ [False])
     \<and> (isProviderAvailable r providerName \<and> \<not> fst (checkRateLimit clk providerName r) \<longrightarrow>
          selectLoop clk ((providerName, provider) # rest) r
            = selectLoop clk rest (snd (checkRateLimit clk providerName r)))
     \<and> (trackerOf r providerName = oldest # others \<and> length (oldest # others) \<le> N
        \<and> 60000 \<le> clk (clockReads r) - oldest \<longrightarrow>
          fst (checkRateLimit clk providerName r))
     \<and> (fst (checkRateLimit clk providerName r) \<longrightarrow>
          trackerOf (snd (checkRateLimit clk providerName r)) providerName
            = filter (\<lambda>t. clk (Suc (Suc (clockReads r))) - 60000 < t)
                (trackerOf r providerName @ [clk (Suc (clockReads r))]))
     \<and> (fst (checkRateLimit clk providerName r)
        \<and> clk (Suc (Suc (clockReads r))) - 60000 < clk (Suc (clockReads r)) \<longrightarrow>
          trackerOf (snd (checkRateLimit clk providerName r)) providerName \<noteq> []
          \<and> last (trackerOf (snd (checkRateLimit clk providerName r)) providerName)
               = clk (Suc (clockReads r)))
     \<and> (\<not> fst (checkRateLimit clk providerName r) \<longrightarrow>
          rateLimitTracker (snd (checkRateLimit clk providerName r)) = rateLimitTracker r)"
proof -
  have a: "fst (repeatCheck clk providerName (Suc N) r) = replicate N True @ [False]"
    if window: "\<forall>i \<ge> clockReads r. hi - 60000 < clk i \<and> clk i \<le> hi"
      and passes: "fst (repeatCheck clk providerName N r) = replicate N True"
  proof -
    obtain results r1 where rc: "repeatCheck clk providerName N r = (results, r1)"
      by (cases "repeatCheck clk providerName N r")
    have cnt: "length (filter (\<lambda>t. hi - 60000 < t) (trackerOf r1 providerName))
           = length (filter (\<lambda>t. hi - 60000 < t) (trackerOf r providerName)) + N
         \<and> findConfig r1 providerName = Some config \<and> clockReads r \<le> clockReads r1"
      using repeatCheck_count [OF cfg window passes] by (simp add: rc)
    have w1: "\<forall>i \<ge> clockReads r1. hi - 60000 < clk i \<and> clk i \<le> hi"
      using window cnt by auto
    have full: "rateLimitPerMinute config
        \<le> int (length (filter (\<lambda>t. hi - 60000 < t) (trackerOf r1 providerName)))"
      using cnt lim by simp
    have "fst (checkRateLimit clk providerName r1) = False"
      using cnt w1 full by (intro limit_reached) auto
    then show ?thesis
      using passes unfolding repeatCheck_snoc rc
      by (cases "checkRateLimit clk providerName r1") simp
  qed
  have b: "fst (repeatCheck clk providerName (Suc N) r) = replicate N True @ [False]"
    if window: "\<forall>i \<ge> clockReads r. hi - 60000 < clk i \<and> clk i \<le> hi"
      and empty: "trackerOf r providerName = []"
  proof -
    have "fst (repeatCheck clk providerName N r) = replicate N True"
      using cfg window by (rule fresh_passes) (simp_all add: empty lim)
    with window show ?thesis by (rule a)
  qed
  have c: "selectLoop clk ((providerName, provider) # rest) r
            = selectLoop clk rest (snd (checkRateLimit clk providerName r))"
    if "isProviderAvailable r providerName" "\<not> fst (checkRateLimit clk providerName r)"
    using that by (cases "checkRateLimit clk providerName r") simp
  have d: "fst (checkRateLimit clk providerName r)"
    if "trackerOf r providerName = oldest # others" "length (oldest # others) \<le> N"
      "60000 \<le> clk (clockReads r) - oldest"
    using cfg that(1) _ that(3) by (rule expired_oldest) (use that(2) lim in simp)
  have e: "trackerOf (snd (checkRateLimit clk providerName r)) providerName
            = filter (\<lambda>t. clk (Suc (Suc (clockReads r))) - 60000 < t)
                (trackerOf r providerName @ [clk (Suc (clockReads r))])"
    if "fst (checkRateLimit clk providerName r)"
    using cfg that by (rule pass_tracker)
  have f: "trackerOf (snd (checkRateLimit clk providerName r)) providerName \<noteq> []
          \<and> last (trackerOf (snd (checkRateLimit clk providerName r)) providerName)
               = clk (Suc (clockReads r))"
    if "fst (checkRateLimit clk providerName r)"
      "clk (Suc (Suc (clockReads r))) - 60000 < clk (Suc (clockReads r))"
    unfolding e [OF that(1)] using that(2) by simp
  have g: "rateLimitTracker (snd (checkRateLimit clk providerName r)) = rateLimitTracker r"
    if "\<not> fst (checkRateLimit clk providerName r)"
    using that by (rule rejected_unchanged)
  show ?thesis using a b c d e f g by blast
qed

theorem rate_limit_window_witness:
  "findConfig (constructor [limitedConfig]) ''openai'' = Some limitedConfig
   \<and> rateLimitPerMinute limitedConfig = int 2
   \<and> trackerOf (constructor [limitedConfig]) ''openai'' = []
   \<and> fst (repeatCheck (\<lambda>k. 1000) ''openai'' (Suc 2) (constructor [limitedConfig]))
       = [True, True, False]
   \<and> trackerOf (snd (repeatCheck (\<lambda>k. 1000) ''openai'' (Suc (Suc 0)) (constructor [limitedConfig])))
        ''openai'' = [1000, 1000]
   \<and> fst (checkRateLimit (\<lambda>k. 61000) ''openai''
        (snd (repeatCheck (\<lambda>k. 1000) ''openai'' (Suc (Suc 0)) (constructor [limitedConfig]))))
   \<and> last (trackerOf (snd (checkRateLimit (\<lambda>k. 61000) ''openai''
        (snd (repeatCheck (\<lambda>k. 1000) ''openai'' (Suc (Suc 0)) (constructor [limitedConfig])))))
        ''openai'') = 61000"
proof -
  let ?r0 = "constructor [limitedConfig]"
  let ?r2 = "snd (repeatCheck (\<lambda>k. 1000) ''openai'' (Suc (Suc 0)) ?r0)"
  have lim: "rateLimitPerMinute limitedConfig = int 2" by (simp add: limitedConfig_def)
  have empty: "trackerOf ?r0 ''openai'' = []"
    by (simp add: constructor_limited trackerOf_def)
  have window: "\<forall>i \<ge> clockReads ?r0. (1000::int) - 60000 < (\<lambda>k. 1000) i \<and> (\<lambda>k. 1000) i \<le> (1000::int)"
    by simp
  have first: "fst (repeatCheck (\<lambda>k. 1000) ''openai'' (Suc 2) ?r0) = [True, True, False]"
    using rate_limit_window [OF findConfig_limited lim, of 1000 "\<lambda>k. 1000"] window empty
    by (simp add: numeral_2_eq_2)
  have cfg2: "findConfig ?r2 ''openai'' = Some limitedConfig"
    unfolding two_requests_limited by (simp add: findConfig_def limitedConfig_def)
  have tr2: "trackerOf ?r2 ''openai'' = [1000, 1000]"
    unfolding two_requests_limited by (simp add: trackerOf_def)
  have old: "60000 \<le> (\<lambda>k. 61000) (clockReads ?r2) - (1000::int)" by simp
  have len: "length [1000, 1000 :: int] \<le> 2" by simp
  have pass: "fst (checkRateLimit (\<lambda>k. 61000) ''openai'' ?r2)"
    using rate_limit_window [OF cfg2 lim, of _ "\<lambda>k. 61000" _ _ 1000 "[1000]"] tr2 old len
    by simp
  have "last (trackerOf (snd (checkRateLimit (\<lambda>k. 61000) ''openai'' ?r2)) ''openai'') = 61000"
    using rate_limit_window [OF cfg2 lim, of _ "\<lambda>k. 61000"] pass by simp
  then show ?thesis using findConfig_limited lim empty first tr2 pass by simp
qed

subsection \<open>Slots recorded for backends that are skipped\<close>

lemma checkRateLimit_other:
  "m \<noteq> n \<Longrightarrow> trackerOf (snd (checkRateLimit clk m r)) n = trackerOf r n"
  by (cases "findConfig r m")
    (simp add: checkRateLimit_def, simp add: checkRateLimit_eq trackerOf_def)

lemma selectLoop_step:
  "\<exists>r1. selectLoop clk ((m, q) # ps) r = selectLoop clk ps r1 \<or>
     selectLoop clk ((m, q) # ps) r = (Some q, r1)"
  by (cases "checkRateLimit clk m r") auto

lemma selectLoop_reads: "clockReads r \<le> clockReads (snd (selectLoop clk ps r))"
proof (induction ps arbitrary: r)
  case Nil
  show ?case by simp
next
  case (Cons entry ps)
  obtain m q where entry: "entry = (m, q)" by (cases entry)
  obtain passed r1 where chk: "checkRateLimit clk m r = (passed, r1)"
    by (cases "checkRateLimit clk m r")
  have r1: "clockReads r \<le> clockReads r1"
    using checkRateLimit_reads [of r clk m] by (simp add: chk)
  show ?case
    using Cons.IH [of r] Cons.IH [of r1] r1 by (auto simp: entry chk)
qed

lemma selectLoop_other:
  "n \<notin> fst ` set ps \<Longrightarrow> trackerOf (snd (selectLoop clk ps r)) n = trackerOf r n"
proof (induction ps arbitrary: r)
  case Nil
  show ?case by simp
next
  case (Cons entry ps)
  obtain m q where entry: "entry = (m, q)" by (cases entry)
  obtain passed r1 where chk: "checkRateLimit clk m r = (passed, r1)"
    by (cases "checkRateLimit clk m r")
  have ne: "m \<noteq> n" and rest: "n \<notin> fst ` set ps"
    using Cons.prems by (auto simp: entry)
  have r1: "trackerOf r1 n = trackerOf r n"
    using checkRateLimit_other [OF ne, of clk r] by (simp add: chk)
  show ?case
    using Cons.IH [OF rest, of r] Cons.IH [OF rest, of r1] r1 by (auto simp: entry chk)
qed

lemma selectLoop_append:
  "fst (selectLoop clk pre r) = None \<Longrightarrow>
     selectLoop clk (pre @ post) r = selectLoop clk post (snd (selectLoop clk pre r))"
proof (induction pre arbitrary: r)
  case Nil
  show ?case by simp
next
  case (Cons entry pre)
  obtain m q where entry: "entry = (m, q)" by (cases entry)
  obtain passed r1 where chk: "checkRateLimit clk m r = (passed, r1)"
    by (cases "checkRateLimit clk m r")
  show ?case
    using Cons.prems Cons.IH [of r] Cons.IH [of r1]
    by (auto simp: entry chk split: if_splits)
qed

lemma isProviderAvailable_cong:
  "providers r' = providers r \<Longrightarrow> isProviderAvailable r' n = isProviderAvailable r n"
  by (simp add: isProviderAvailable_def)

lemma skipped_entry:
  assumes "fst (selectLoop clk pre r) = None"
    and "distinct (map fst pre)"
    and "(n, p) \<in> set pre"
    and "isProviderAvailable r n"
    and "findConfig r n = Some c"
  shows "\<exists>k \<ge> clockReads r.
           (rateLimitPerMinute c \<le> int (length (filter (\<lambda>t. clk k - 60000 < t) (trackerOf r n)))
              \<and> trackerOf (snd (selectLoop clk pre r)) n = trackerOf r n)
         \<or> (int (length (filter (\<lambda>t. clk k - 60000 < t) (trackerOf r n))) < rateLimitPerMinute c
              \<and> maxConcurrent c \<le> activeCount r n
              \<and> trackerOf (snd (selectLoop clk pre r)) n
                   = filter (\<lambda>t. clk (Suc (Suc k)) - 60000 < t) (trackerOf r n @ [clk (Suc k)]))"
  using assms
proof (induction pre arbitrary: r)
  case Nil
  then show ?case by simp
next
  case (Cons entry pre)
  obtain m q where entry: "entry = (m, q)" by (cases entry)
  obtain passed r1 where chk: "checkRateLimit clk m r = (passed, r1)"
    by (cases "checkRateLimit clk m r")
  have frame: "providers r1 = providers r" "providerConfigs r1 = providerConfigs r"
    "activeRequests r1 = activeRequests r"
    using checkRateLimit_frame [of clk m r] by (simp_all add: chk)
  have reads: "clockReads r \<le> clockReads r1"
    using checkRateLimit_reads [of r clk m] by (simp add: chk)
  have cfg1: "findConfig r1 n = Some c"
    using Cons.prems(5) findConfig_cong [OF frame(2)] by simp
  have act1: "activeCount r1 n = activeCount r n"
    using activeCount_cong [OF frame(3)] by simp
  have notin: "m \<notin> fst ` set pre" and dist: "distinct (map fst pre)"
    using Cons.prems(2) by (simp_all add: entry)
  show ?case
  proof (cases "m = n")
    case True
    have chk': "checkRateLimit clk n r = (passed, r1)" using chk True by simp
    have entry': "entry = (n, q)" using entry True by simp
    let ?k = "clockReads r"
    let ?count = "int (length (filter (\<lambda>t. clk ?k - 60000 < t) (trackerOf r n)))"
    have eq: "checkRateLimit clk n r =
       (if rateLimitPerMinute c \<le> ?count
        then (False, r\<lparr>clockReads := Suc ?k\<rparr>)
        else (True, r\<lparr>clockReads := Suc (Suc (Suc ?k)),
                     rateLimitTracker := (rateLimitTracker r)(n \<mapsto>
                        filter (\<lambda>t. clk (Suc (Suc ?k)) - 60000 < t)
                          (trackerOf r n @ [clk (Suc ?k)]))\<rparr>))"
      by (rule checkRateLimit_eq [OF Cons.prems(5)])
    have rest: "trackerOf (snd (selectLoop clk pre s)) n = trackerOf s n" for s
      using notin True by (intro selectLoop_other) simp
    show ?thesis
    proof (cases "rateLimitPerMinute c \<le> ?count")
      case limited: True
      have r1: "r1 = r\<lparr>clockReads := Suc ?k\<rparr>" and np: "\<not> passed"
        using chk' eq limited by simp_all
      have "selectLoop clk (entry # pre) r = selectLoop clk pre r1"
        using Cons.prems(4) np by (simp add: entry' chk')
      then have "trackerOf (snd (selectLoop clk (entry # pre) r)) n = trackerOf r n"
        using rest [of r1] by (simp add: r1)
      then show ?thesis using limited by auto
    next
      case room: False
      have pa: "passed"
        using chk' eq room by simp
      have r1: "trackerOf r1 n = filter (\<lambda>t. clk (Suc (Suc ?k)) - 60000 < t)
                          (trackerOf r n @ [clk (Suc ?k)])"
        using pass_tracker [OF Cons.prems(5), of clk] pa by (simp add: chk')
      have cap: "maxConcurrent c \<le> activeCount r n"
      proof (rule ccontr)
        assume "\<not> maxConcurrent c \<le> activeCount r n"
        then have "fst (selectLoop clk (entry # pre) r) = Some q"
          using Cons.prems(4) pa cfg1 act1 by (simp add: entry' chk')
        then show False using Cons.prems(1) by simp
      qed
      have "selectLoop clk (entry # pre) r = selectLoop clk pre r1"
        using Cons.prems(4) pa cfg1 act1 cap by (simp add: entry' chk')
      then have "trackerOf (snd (selectLoop clk (entry # pre) r)) n
           = filter (\<lambda>t. clk (Suc (Suc ?k)) - 60000 < t) (trackerOf r n @ [clk (Suc ?k)])"
        using rest [of r1] r1 by simp
      then show ?thesis using room cap by auto
    qed
  next
    case False
    have mem: "(n, p) \<in> set pre" using Cons.prems(3) False by (auto simp: entry)
    have tr1: "trackerOf r1 n = trackerOf r n"
      using checkRateLimit_other [OF False, of clk r] by (simp add: chk)
    have av1: "isProviderAvailable r1 n"
      using Cons.prems(4) isProviderAvailable_cong [OF frame(1)] by simp
    from selectLoop_step [of clk m q pre r]
    have "selectLoop clk (entry # pre) r = selectLoop clk pre r
        \<or> selectLoop clk (entry # pre) r = selectLoop clk pre r1"
      using Cons.prems(1) by (auto simp: entry chk split: if_splits)
    then show ?thesis
    proof
      assume same: "selectLoop clk (entry # pre) r = selectLoop clk pre r"
      have "fst (selectLoop clk pre r) = None" using Cons.prems(1) same by simp
      from Cons.IH [OF this dist mem Cons.prems(4,5)] show ?thesis unfolding same .
    next
      assume next1: "selectLoop clk (entry # pre) r = selectLoop clk pre r1"
      have "fst (selectLoop clk pre r1) = None" using Cons.prems(1) next1 by simp
      from Cons.IH [OF this dist mem av1 cfg1]
      show ?thesis unfolding next1 tr1 act1 using reads by (meson le_trans)
    qed
  qed
qed

lemma distinct_map_sort_key: "distinct (map f (sort_key k xs)) = distinct (map f xs)"
  by (simp add: distinct_map)

lemma wellFormed_sorted:
  "wellFormed r \<Longrightarrow>
     distinct (map fst (sortedProviders r)) \<and> distinct (map snd (sortedProviders r))"
  by (simp add: wellFormed_def sortedProviders_def distinct_map_sort_key)

text \<open>
  Claim C9. Take any initial part of the priority-ordered provider list that the selection
  loop leaves without selecting (a pass that fails leaves the whole list so), and any
  backend in it. The backend is not the one selected. With \<open>k\<close> the index of the clock
  reading of its rate-limit check: either the check fails and its window is unchanged, or
  the check passes, the backend is at capacity, and its window after the pass is the old
  one with the instant read by \<open>trackRequest\<close> appended and pruned. So the instant is
  recorded for a backend that passes the rate-limit check although the request does not
  use it.
\<close>

theorem rate_limit_slot_recorded_when_skipped:
  assumes wf: "wellFormed r"
    and order: "sortedProviders r = skipped @ remaining"
    and none: "fst (selectLoop clk skipped r) = None"
    and entry: "(providerName, provider) \<in> set skipped"
    and cfg: "findConfig r providerName = Some config"
  shows "fst (selectProvider clk r) \<noteq> Some provider
       \<and> (\<exists>k \<ge> clockReads r.
           (rateLimitPerMinute config
               \<le> int (length (filter (\<lambda>t. clk k - 60000 < t) (trackerOf r providerName)))
              \<and> trackerOf (snd (selectProvider clk r)) providerName = trackerOf r providerName)
         \<or> (int (length (filter (\<lambda>t. clk k - 60000 < t) (trackerOf r providerName)))
               < rateLimitPerMinute config
              \<and> maxConcurrent config \<le> activeCount r providerName
              \<and> trackerOf (snd (selectProvider clk r)) providerName
                   = filter (\<lambda>t. clk (Suc (Suc k)) - 60000 < t)
                       (trackerOf r providerName @ [clk (Suc k)])))"
proof -
  let ?s = "snd (selectLoop clk skipped r)"
  have d: "distinct (map fst (skipped @ remaining))" "distinct (map snd (skipped @ remaining))"
    using wellFormed_sorted [OF wf] order by simp_all
  have sel: "selectProvider clk r = selectLoop clk remaining ?s"
    unfolding selectProvider_def order using none by (rule selectLoop_append)
  have "providerName \<in> fst ` set skipped" using entry by force
  then have "providerName \<notin> fst ` set remaining" using d(1) by auto
  then have tr: "trackerOf (snd (selectProvider clk r)) providerName = trackerOf ?s providerName"
    unfolding sel by (rule selectLoop_other)
  have "(providerName, provider) \<in> set (providers r)"
    using entry order set_sortedProviders [of r] by auto
  then have "providerName \<in> fst ` set (providers r)" by force
  then have av: "isProviderAvailable r providerName" by (simp add: isProviderAvailable_iff)
  have dk: "distinct (map fst skipped)" using d(1) by simp
  have notsel: "fst (selectProvider clk r) \<noteq> Some provider"
  proof
    assume "fst (selectProvider clk r) = Some provider"
    then have "fst (selectLoop clk remaining ?s) = Some provider" by (simp add: sel)
    from selectLoop_Some [OF this] obtain m where "(m, provider) \<in> set remaining" by blast
    then have "provider \<in> snd ` set remaining" by force
    moreover have "provider \<in> snd ` set skipped" using entry by force
    ultimately show False using d(2) by auto
  qed
  show ?thesis
    using notsel skipped_entry [OF none dk entry av cfg] unfolding tr by blast
qed

lemma activeCount_update [simp]:
  "activeCount (r\<lparr>clockReads := k\<rparr>) m = activeCount r m"
  "activeCount (r\<lparr>rateLimitTracker := w\<rparr>) m = activeCount r m"
  by (simp_all add: activeCount_def)

lemma constructor_saturated:
  "constructor [saturatedConfig, anthropicConfig] =
     \<lparr>providers = [(''openai'', OpenAIProvider ''k1''), (''anthropic'', AnthropicProvider ''k2'')],
      providerConfigs = [saturatedConfig, anthropicConfig],
      activeRequests = [''openai'' \<mapsto> 0, ''anthropic'' \<mapsto> 0],
      rateLimitTracker = [''openai'' \<mapsto> [], ''anthropic'' \<mapsto> []],
      clockReads = 0\<rparr>"
  by (simp add: constructor_def saturatedConfig_def anthropicConfig_def newProvider_def)

lemma sortedProviders_saturated:
  "sortedProviders (constructor [saturatedConfig, anthropicConfig]) =
     [(''openai'', OpenAIProvider ''k1'')] @ [(''anthropic'', AnthropicProvider ''k2'')]"
  unfolding constructor_saturated
  by (simp add: sortedProviders_def selectKey_def findConfig_def saturatedConfig_def
      anthropicConfig_def)

lemma findConfig_saturated:
  "findConfig (constructor [saturatedConfig, anthropicConfig]) ''openai'' = Some saturatedConfig"
  unfolding constructor_saturated by (simp add: findConfig_def saturatedConfig_def)

lemma skip_saturated:
  "selectLoop (\<lambda>k. 1000) [(''openai'', OpenAIProvider ''k1'')]
      (constructor [saturatedConfig, anthropicConfig]) =
     (None, (constructor [saturatedConfig, anthropicConfig])
        \<lparr>rateLimitTracker := [''openai'' \<mapsto> [1000], ''anthropic'' \<mapsto> []], clockReads := 3\<rparr>)"
proof -
  have av: "isProviderAvailable (constructor [saturatedConfig, anthropicConfig]) ''openai''"
    by (simp add: constructor_saturated isProviderAvailable_def)
  have chk: "checkRateLimit (\<lambda>k. 1000) ''openai'' (constructor [saturatedConfig, anthropicConfig])
     = (True, (constructor [saturatedConfig, anthropicConfig])
        \<lparr>rateLimitTracker := [''openai'' \<mapsto> [1000], ''anthropic'' \<mapsto> []], clockReads := 3\<rparr>)"
    unfolding constructor_saturated
    by (simp add: checkRateLimit_def findConfig_def trackRequest_def Date_now_def trackerOf_def
        saturatedConfig_def anthropicConfig_def eval_nat_numeral fun_upd_twist)
  have a0: "activeCount (constructor [saturatedConfig, anthropicConfig]) ''openai'' = 0"
    by (simp add: constructor_saturated activeCount_def)
  have m0: "maxConcurrent saturatedConfig = 0"
    by (simp add: saturatedConfig_def)
  show ?thesis
    using av by (simp add: chk findConfig_saturated a0 m0)
qed

lemma selectProvider_saturated:
  "selectProvider (\<lambda>k. 1000) (constructor [saturatedConfig, anthropicConfig]) =
     (Some (AnthropicProvider ''k2''),
      (constructor [saturatedConfig, anthropicConfig])
        \<lparr>rateLimitTracker := [''openai'' \<mapsto> [1000], ''anthropic'' \<mapsto> [1000]], clockReads := 6\<rparr>)"
  unfolding selectProvider_def sortedProviders_saturated
  unfolding selectLoop_append [of "\<lambda>k. 1000" "[(''openai'', OpenAIProvider ''k1'')]"
      "constructor [saturatedConfig, anthropicConfig]", unfolded skip_saturated, simplified]
  unfolding constructor_saturated
  by (simp add: isProviderAvailable_def checkRateLimit_def findConfig_def trackRequest_def
      Date_now_def trackerOf_def saturatedConfig_def anthropicConfig_def activeCount_def
      eval_nat_numeral)

theorem rate_limit_slot_recorded_when_skipped_witness:
  "wellFormed (constructor [saturatedConfig, anthropicConfig])
   \<and> sortedProviders (constructor [saturatedConfig, anthropicConfig])
       = [(''openai'', OpenAIProvider ''k1'')] @ [(''anthropic'', AnthropicProvider ''k2'')]
   \<and> fst (selectLoop (\<lambda>k. 1000) [(''openai'', OpenAIProvider ''k1'')]
        (constructor [saturatedConfig, anthropicConfig])) = None
   \<and> findConfig (constructor [saturatedConfig, anthropicConfig]) ''openai'' = Some saturatedConfig
   \<and> fst (selectProvider (\<lambda>k. 1000) (constructor [saturatedConfig, anthropicConfig]))
       \<noteq> Some (OpenAIProvider ''k1'')
   \<and> fst (selectProvider (\<lambda>k. 1000) (constructor [saturatedConfig, anthropicConfig]))
       = Some (AnthropicProvider ''k2'')
   \<and> trackerOf (constructor [saturatedConfig, anthropicConfig]) ''openai'' = []
   \<and> trackerOf (snd (selectProvider (\<lambda>k. 1000) (constructor [saturatedConfig, anthropicConfig])))
        ''openai'' = [1000]"
proof -
  have wf: "wellFormed (constructor [saturatedConfig, anthropicConfig])"
    by (rule constructor_wellFormed)
  have none: "fst (selectLoop (\<lambda>k. 1000) [(''openai'', OpenAIProvider ''k1'')]
        (constructor [saturatedConfig, anthropicConfig])) = None"
    unfolding skip_saturated by simp
  have entry: "(''openai'', OpenAIProvider ''k1'') \<in> set [(''openai'', OpenAIProvider ''k1'')]"
    by simp
  have t0: "trackerOf (constructor [saturatedConfig, anthropicConfig]) ''openai'' = []"
    by (simp add: constructor_saturated trackerOf_def)
  have t1: "trackerOf (snd (selectProvider (\<lambda>k. 1000) (constructor [saturatedConfig, anthropicConfig])))
        ''openai'' = [1000]"
    by (simp add: selectProvider_saturated) (simp add: constructor_saturated trackerOf_def)
  show ?thesis
    using wf none t0 t1 sortedProviders_saturated findConfig_saturated
      rate_limit_slot_recorded_when_skipped [OF wf sortedProviders_saturated none entry
        findConfig_saturated]
    by (simp add: selectProvider_saturated)
qed

subsection \<open>The chunk sequence of a provider stream\<close>

lemma isContent_not_Start: "isContent c \<Longrightarrow> c \<noteq> Start \<and> \<not> isError c"
  by (cases c) simp_all

lemma openaiLines_shape:
  "openaiLines pd ls = (cs, returned) \<Longrightarrow>
     (\<not> returned \<longrightarrow> list_all isContent cs) \<and>
     (returned \<longrightarrow> cs \<noteq> [] \<and> list_all isContent (butlast cs) \<and> last cs = End)"
proof (induction ls arbitrary: cs returned)
  case Nil
  then show ?case by simp
next
  case (Cons line ls)
  obtain cs' ret' where rest: "openaiLines pd ls = (cs', ret')"
    by (cases "openaiLines pd ls")
  note ih = Cons.IH [OF rest]
  show ?case
  proof (cases "startsWith line ''data: ''")
    case False
    then show ?thesis using Cons.prems ih rest by simp
  next
    case prefixed: True
    show ?thesis
    proof (cases "drop 6 line = ''[DONE]''")
      case True
      then show ?thesis using Cons.prems prefixed by auto
    next
      case False
      show ?thesis
      proof (cases "pd (drop 6 line)")
        case None
        then show ?thesis using Cons.prems ih rest prefixed False by simp
      next
        case (Some delta)
        then have "cs = Content (Some delta) # cs'" "returned = ret'"
          using Cons.prems rest prefixed False by simp_all
        then show ?thesis using ih by (cases cs') auto
      qed
    qed
  qed
qed

lemma shape_append:
  assumes "list_all isContent cs" and "list_all isContent (butlast rest)" and "Start \<notin> set rest"
  shows "list_all isContent (butlast (cs @ rest)) \<and> Start \<notin> set (cs @ rest)"
proof -
  have "Start \<notin> set cs"
    using assms(1) isContent_not_Start by (auto simp: list_all_iff)
  moreover have "list_all isContent (butlast cs)"
    using assms(1) by (auto simp: list_all_iff dest: in_set_butlastD)
  ultimately show ?thesis using assms by (simp add: butlast_append)
qed

lemma openaiReads_shape:
  "list_all isContent (butlast (openaiReads pd pieces e)) \<and> Start \<notin> set (openaiReads pd pieces e)"
proof (induction pieces)
  case Nil
  show ?case by (cases e) simp_all
next
  case (Cons piece pieces)
  obtain cs returned where ls: "openaiLines pd (splitLines piece) = (cs, returned)"
    by (cases "openaiLines pd (splitLines piece)")
  note sh = openaiLines_shape [OF ls]
  show ?case
  proof (cases returned)
    case True
    have "Start \<notin> set (butlast cs)"
      using sh True isContent_not_Start by (auto simp: list_all_iff)
    moreover have "cs = butlast cs @ [End]"
      using sh True by (metis append_butlast_last_id)
    ultimately have "Start \<notin> set cs"
      by (metis StreamChunk.distinct(3) Un_iff empty_iff empty_set set_ConsD set_append)
    then show ?thesis using sh True by (simp add: ls)
  next
    case False
    then show ?thesis
      using shape_append [of cs "openaiReads pd pieces e"] sh Cons.IH by (simp add: ls)
  qed
qed

lemma openaiReads_fails:
  "openaiReads pd pieces (ReadFails msg) \<noteq> [] \<and>
   (last (openaiReads pd pieces (ReadFails msg)) = End
      \<or> last (openaiReads pd pieces (ReadFails msg)) = Error msg)"
proof (induction pieces)
  case Nil
  show ?case by simp
next
  case (Cons piece pieces)
  obtain cs returned where ls: "openaiLines pd (splitLines piece) = (cs, returned)"
    by (cases "openaiLines pd (splitLines piece)")
  show ?case
    using openaiLines_shape [OF ls] Cons.IH by (cases returned) (simp_all add: ls)
qed

lemma openaiLines_done:
  "''data: [DONE]'' \<in> set ls \<Longrightarrow> snd (openaiLines pd ls)"
proof (induction ls)
  case Nil
  then show ?case by simp
next
  case (Cons line ls)
  show ?case
  proof (cases "line = ''data: [DONE]''")
    case True
    then show ?thesis by (simp add: startsWith_def)
  next
    case False
    then have "snd (openaiLines pd ls)" using Cons by simp
    then show ?thesis
      by (cases "openaiLines pd ls") (simp add: Let_def split: option.splits)
  qed
qed

lemma openaiReads_done:
  "\<exists>piece \<in> set pieces. ''data: [DONE]'' \<in> set (splitLines piece) \<Longrightarrow>
     openaiReads pd pieces e \<noteq> [] \<and> last (openaiReads pd pieces e) = End"
proof (induction pieces)
  case Nil
  then show ?case by simp
next
  case (Cons piece pieces)
  obtain cs returned where ls: "openaiLines pd (splitLines piece) = (cs, returned)"
    by (cases "openaiLines pd (splitLines piece)")
  show ?case
  proof (cases returned)
    case True
    then show ?thesis using openaiLines_shape [OF ls] by (simp add: ls)
  next
    case False
    then have "''data: [DONE]'' \<notin> set (splitLines piece)"
      using openaiLines_done [of "splitLines piece" pd] by (auto simp: ls)
    then have "\<exists>piece \<in> set pieces. ''data: [DONE]'' \<in> set (splitLines piece)"
      using Cons.prems by simp
    then show ?thesis using Cons.IH False by (simp add: ls)
  qed
qed

lemma anthropicLines_shape:
  "list_all (\<lambda>c. c \<noteq> Start \<and> \<not> isError c) (anthropicLines pe ls)"
  by (induction ls) (auto split: option.splits AnthropicEvent.splits)

lemma anthropicReads_shape:
  "Start \<notin> set (anthropicReads pe pieces e) \<and>
   list_all (\<lambda>c. \<not> isError c) (butlast (anthropicReads pe pieces e)) \<and>
   (\<forall>msg. e = ReadFails msg \<longrightarrow>
      anthropicReads pe pieces e \<noteq> [] \<and> last (anthropicReads pe pieces e) = Error msg)"
proof (induction pieces)
  case Nil
  show ?case by (cases e) simp_all
next
  case (Cons piece pieces)
  have ls: "list_all (\<lambda>c. c \<noteq> Start \<and> \<not> isError c) (anthropicLines pe (splitLines piece))"
    by (rule anthropicLines_shape)
  then have b: "list_all (\<lambda>c. \<not> isError c) (butlast (anthropicLines pe (splitLines piece)))"
    by (auto simp: list_all_iff dest: in_set_butlastD)
  show ?case
    using ls b Cons.IH by (auto simp: butlast_append list_all_iff)
qed



lemma splitLines_examples:
  "splitLines (''data: c:hi'' @ [CHR 0x0A] @ ''junk'') = [''data: c:hi'', ''junk'']"
  "splitLines (''data: c:there'' @ [CHR 0x0A]) = [''data: c:there'', '''']"
  "splitLines (''data: stop'' @ [CHR 0x0A] @ ''data: c:late'') = [''data: stop'', ''data: c:late'']"
  by simp_all

lemma OpenAI_stream_read_fails:
  "OpenAI_stream exampleDelta (Body examplePieces (ReadFails ''Error: reset'')) =
     [Start, Content (Some ''hi''), Content (Some ''there''), Error ''Error: reset'']"
  unfolding OpenAI_stream_def examplePieces_def
  by (simp add: splitLines_examples startsWith_def exampleDelta_def)

lemma Anthropic_stream_read_fails:
  "Anthropic_stream exampleEvent (Body examplePieces (ReadFails ''Error: reset'')) =
     [Start, Content (Some ''hi''), Content (Some ''there''), Error ''Error: reset'']"
  unfolding Anthropic_stream_def examplePieces_def
  by (simp add: splitLines_examples startsWith_def exampleEvent_def)

text \<open>
  Two runs outside the amended claim. When the reader reports \<open>done\<close> and no
  \<open>data: [DONE]\<close> line was read, the OpenAI generator ends after its last content chunk:
  the sequence has no terminal chunk. The Anthropic generator goes on after \<open>message_stop\<close>,
  so chunks can follow the \<open>end\<close> chunk, an \<open>error\<close> chunk among them.
\<close>

lemma OpenAI_stream_ends_without_terminal:
  "OpenAI_stream exampleDelta (Body examplePieces Done) =
     [Start, Content (Some ''hi''), Content (Some ''there'')]"
  unfolding OpenAI_stream_def examplePieces_def
  by (simp add: splitLines_examples startsWith_def exampleDelta_def)

lemma Anthropic_stream_continues_after_end:
  "Anthropic_stream exampleEvent
     (Body [''data: stop'' @ [CHR 0x0A] @ ''data: c:late''] (ReadFails ''Error: reset'')) =
     [Start, End, Content (Some ''late''), Error ''Error: reset'']"
  unfolding Anthropic_stream_def
  by (simp add: splitLines_examples startsWith_def exampleEvent_def)


end
